theory Spec2Isabelle
  imports Main "HOL-Library.Word"
begin

text \<open>
  The merger of flight-dispatcher: \<open>parseSections\<close>, \<open>extractPreservedData\<close>, \<open>merge\<close> and
  \<open>updateTimestamp\<close>, embedded as functions on strings, with the regular expressions of
  the source as backtracking matchers. The first part is the program. The second part
  states what the program computes without its loops, holds the grammars as the
  specification writes them, and writes the operations again with failure as a
  result. The third part proves the claims. Line numbers are those of the source file.
\<close>

section \<open>Strings of the source language\<close>

text \<open>
  The merger is TypeScript: a string is a finite sequence of UTF-16 code units, and the
  regular expressions of the source (none has the \<open>u\<close> flag) work on code units.
  A code unit is a 16-bit word. String literals of the source are written with \<open>js\<close>.
\<close>

type_synonym cu = "16 word"
type_synonym jsstring = "cu list"

definition js :: "string \<Rightarrow> jsstring" where
  "js s = map of_char s"

text \<open>
  The class \<open>\s\<close> of a regular expression, which is also the set of characters that
  \<open>trim\<close> and \<open>trimEnd\<close> remove: WhiteSpace (TAB, VT, FF, SP, NBSP, ZWNBSP and the
  Unicode space separators) and LineTerminator (LF, CR, LS, PS).
\<close>

definition is_line_terminator :: "cu \<Rightarrow> bool" where
  "is_line_terminator c = (c = 0x0A \<or> c = 0x0D \<or> c = 0x2028 \<or> c = 0x2029)"

definition is_space :: "cu \<Rightarrow> bool" where
  "is_space c = (c = 0x09 \<or> c = 0x0B \<or> c = 0x0C \<or> c = 0x20 \<or> c = 0xA0 \<or> c = 0x1680
     \<or> (0x2000 \<le> c \<and> c \<le> 0x200A) \<or> c = 0x202F \<or> c = 0x205F \<or> c = 0x3000 \<or> c = 0xFEFF
     \<or> is_line_terminator c)"

text \<open>The atom \<open>.\<close> of a regular expression without the \<open>s\<close> flag.\<close>

definition is_dot :: "cu \<Rightarrow> bool" where
  "is_dot c = (\<not> is_line_terminator c)"

definition is_hash :: "cu \<Rightarrow> bool" where
  "is_hash c = (c = 0x23)"

text \<open>\<open>s.split('\n')\<close>: never empty, \<open>''.split('\n')\<close> is \<open>['']\<close>.\<close>

fun split_nl :: "jsstring \<Rightarrow> jsstring list" where
  "split_nl [] = [[]]"
| "split_nl (c # cs) =
     (if c = 0x0A then [] # split_nl cs
      else (case split_nl cs of [] \<Rightarrow> [[c]] | l # ls \<Rightarrow> (c # l) # ls))"

text \<open>\<open>xs.join(sep)\<close>\<close>

fun join :: "jsstring \<Rightarrow> jsstring list \<Rightarrow> jsstring" where
  "join sep [] = []"
| "join sep [x] = x"
| "join sep (x # y # ys) = x @ sep @ join sep (y # ys)"

definition trimStart :: "jsstring \<Rightarrow> jsstring" where
  "trimStart s = dropWhile is_space s"

definition trimEnd :: "jsstring \<Rightarrow> jsstring" where
  "trimEnd s = rev (dropWhile is_space (rev s))"

definition trim :: "jsstring \<Rightarrow> jsstring" where
  "trim s = trimEnd (trimStart s)"

definition startsWith :: "jsstring \<Rightarrow> jsstring \<Rightarrow> bool" where
  "startsWith s p = (take (length p) s = p)"

section \<open>Regular expressions of the source, as backtracking matchers\<close>

text \<open>
  The tail \<open>(.+)$\<close> of both line patterns: the rest of the subject, which must be
  non-empty and free of line terminators (there is no \<open>m\<close> flag on the patterns that
  are used, so \<open>$\<close> is the end of the subject).
\<close>

definition text_to_end :: "jsstring \<Rightarrow> bool" where
  "text_to_end t = (t \<noteq> [] \<and> list_all is_dot t)"

text \<open>
  A greedy whitespace run followed by \<open>(.+)$\<close>. The run first takes \<open>j\<close> characters
  (the caller passes the length of the longest run) and gives them back one at a time,
  down to \<open>lo\<close> (1 for \<open>\s+\<close>, 0 for \<open>\s*\<close>). The result is the capture of \<open>(.+)\<close>.
\<close>

fun ws_then_text :: "nat \<Rightarrow> nat \<Rightarrow> jsstring \<Rightarrow> jsstring option" where
  "ws_then_text lo 0 r = (if lo = 0 \<and> text_to_end r then Some r else None)"
| "ws_then_text lo (Suc j) r =
     (if Suc j < lo then None
      else if text_to_end (drop (Suc j) r) then Some (drop (Suc j) r)
      else ws_then_text lo j r)"

text \<open>
  \<open>/^(#{1,6})\s+(.+)$/\<close>, line 42. The greedy \<open>#{1,6}\<close> first takes \<open>k\<close> marks (the
  caller passes the length of the run, at most 6) and gives them back one at a time.
  The result is the length of capture 1 and capture 2.
\<close>

fun hashes_then_rest :: "nat \<Rightarrow> jsstring \<Rightarrow> (nat \<times> jsstring) option" where
  "hashes_then_rest 0 line = None"
| "hashes_then_rest (Suc k) line =
     (let r = drop (Suc k) line in
      case ws_then_text 1 (length (takeWhile is_space r)) r of
        Some t \<Rightarrow> Some (Suc k, t)
      | None \<Rightarrow> hashes_then_rest k line)"

definition match_heading :: "jsstring \<Rightarrow> (nat \<times> jsstring) option" where
  "match_heading line = hashes_then_rest (min 6 (length (takeWhile is_hash line))) line"

text \<open>\<open>/^- \[[ x]\]/\<close>, line 119.\<close>

fun match_checkbox :: "jsstring \<Rightarrow> bool" where
  "match_checkbox (a # b # c # d # e # rest) =
     (a = 0x2D \<and> b = 0x20 \<and> c = 0x5B \<and> (d = 0x20 \<or> d = 0x78) \<and> e = 0x5D)"
| "match_checkbox _ = False"

text \<open>\<open>/^- \[[ x]\]\s*(.+)$/\<close>, line 121; the result is capture 1.\<close>

definition match_todo :: "jsstring \<Rightarrow> jsstring option" where
  "match_todo s =
     (if match_checkbox s
      then ws_then_text 0 (length (takeWhile is_space (drop 5 s))) (drop 5 s)
      else None)"

section \<open>Parse\<close>

record Section =
  header :: jsstring
  level :: nat
  content :: jsstring

definition PRESERVED_SECTIONS :: "jsstring list" where
  "PRESERVED_SECTIONS = [js ''About This Project'', js ''Pending TODOs'', js ''Architecture Rules'']"

text \<open>The variables of the loop of \<open>parseSections\<close>.\<close>

record parse_state =
  sections :: "Section list"
  currentSectionHeader :: jsstring
  currentSectionLevel :: nat
  currentContent :: "jsstring list"
  inSection :: bool

definition parse_init :: parse_state where
  "parse_init = \<lparr>sections = [], currentSectionHeader = [], currentSectionLevel = 0,
     currentContent = [], inSection = False\<rparr>"

text \<open>The section that lines 50 and 70 push.\<close>

definition current_section :: "parse_state \<Rightarrow> Section" where
  "current_section st = \<lparr>header = currentSectionHeader st, level = currentSectionLevel st,
     content = trimEnd (join (js ''\<newline>'') (currentContent st))\<rparr>"

text \<open>One iteration of the loop, lines 41 to 65. A non-empty string is truthy.\<close>

definition parse_line :: "parse_state \<Rightarrow> jsstring \<Rightarrow> parse_state" where
  "parse_line st line =
     (case match_heading line of
        Some (lv, t) \<Rightarrow>
          \<lparr>sections =
             (if inSection st \<or> currentSectionHeader st \<noteq> []
              then sections st @ [current_section st] else sections st),
           currentSectionHeader = trim t,
           currentSectionLevel = lv,
           currentContent = [line],
           inSection = True\<rparr>
      | None \<Rightarrow>
          (if inSection st then st\<lparr>currentContent := currentContent st @ [line]\<rparr> else st))"

definition parseSections :: "jsstring \<Rightarrow> Section list" where
  "parseSections markdown =
     (let st = foldl parse_line parse_init (split_nl markdown) in
      if inSection st \<and> currentSectionHeader st \<noteq> []
      then sections st @ [current_section st] else sections st)"

section \<open>Extract preserved data\<close>

record PreservedData =
  description :: jsstring
  architectureRules :: "jsstring list"
  todos :: "jsstring list"

text \<open>Lines 99 to 125, each on the result of \<open>sections.find\<close> (\<open>undefined\<close> is \<open>None\<close>).\<close>

definition extract_description :: "Section option \<Rightarrow> jsstring" where
  "extract_description aboutSection =
     (case aboutSection of
        Some s \<Rightarrow> trim (join (js ''\<newline>'') (drop 1 (split_nl (content s))))
      | None \<Rightarrow> [])"

definition extract_rules :: "Section option \<Rightarrow> jsstring list" where
  "extract_rules archSection =
     (case archSection of
        Some s \<Rightarrow> map (\<lambda>l. trim (drop 2 (trim l)))
                    (filter (\<lambda>l. startsWith (trim l) (js ''- '')) (split_nl (content s)))
      | None \<Rightarrow> [])"

definition extract_todos :: "Section option \<Rightarrow> jsstring list" where
  "extract_todos todoSection =
     (case todoSection of
        Some s \<Rightarrow> filter (\<lambda>t. t \<noteq> [])
                    (map (\<lambda>l. case match_todo (trim l) of Some m \<Rightarrow> trim m | None \<Rightarrow> [])
                       (filter (\<lambda>l. match_checkbox (trim l)) (split_nl (content s))))
      | None \<Rightarrow> [])"

definition extractPreservedData :: "jsstring \<Rightarrow> PreservedData" where
  "extractPreservedData existingContent =
     (let secs = parseSections existingContent;
          aboutSection = find (\<lambda>s. header s = js ''About This Project'') secs;
          archSection = find (\<lambda>s. header s = js ''Architecture Rules'') secs;
          todoSection = find (\<lambda>s. header s = js ''Pending TODOs'') secs
      in \<lparr>description = extract_description aboutSection,
          architectureRules = extract_rules archSection,
          todos = extract_todos todoSection\<rparr>)"

section \<open>Merge\<close>

text \<open>A \<open>Map\<close> filled by \<open>set\<close> in the order of the sections: a later entry overwrites.\<close>

definition sections_map :: "Section list \<Rightarrow> (jsstring \<rightharpoonup> Section)" where
  "sections_map secs = foldl (\<lambda>m s. m(header s \<mapsto> s)) Map.empty secs"

text \<open>The body of the first loop, lines 157 to 169; an object is truthy.\<close>

definition select_section :: "(jsstring \<rightharpoonup> Section) \<Rightarrow> Section \<Rightarrow> Section" where
  "select_section existingSectionsMap newSection =
     (if header newSection \<in> set PRESERVED_SECTIONS
      then (case existingSectionsMap (header newSection) of
              Some existing \<Rightarrow> existing
            | None \<Rightarrow> newSection)
      else newSection)"

text \<open>The body of the second loop, lines 175 to 180, with its guard as it is written.\<close>

definition append_custom ::
  "(jsstring \<rightharpoonup> Section) \<Rightarrow> Section list \<Rightarrow> Section \<Rightarrow> Section list" where
  "append_custom newSectionsMap finalSections existingSection =
     (let alreadyIncluded =
            (newSectionsMap (header existingSection) \<noteq> None
             \<or> list_ex (\<lambda>s. header s = header existingSection) finalSections)
      in if \<not> alreadyIncluded \<and> header existingSection \<noteq> header existingSection
         then finalSections @ [existingSection]
         else finalSections)"

text \<open>The list \<open>finalSections\<close> at line 183.\<close>

definition merge_sections :: "jsstring \<Rightarrow> jsstring \<Rightarrow> Section list" where
  "merge_sections existingContent newContent =
     (let existingSections = parseSections existingContent;
          newSections = parseSections newContent;
          newSectionsMap = sections_map newSections;
          existingSectionsMap = sections_map existingSections;
          finalSections =
            foldl (\<lambda>fs newSection. fs @ [select_section existingSectionsMap newSection])
              [] newSections
      in foldl (append_custom newSectionsMap) finalSections existingSections)"

definition join_sections :: "Section list \<Rightarrow> jsstring" where
  "join_sections secs = join (js ''\<newline>\<newline>'') (map content secs) @ js ''\<newline>''"

definition merge :: "jsstring \<Rightarrow> jsstring \<Rightarrow> jsstring" where
  "merge existingContent newContent =
     join_sections (merge_sections existingContent newContent)"

section \<open>Update header timestamp\<close>

definition banner_prefix :: jsstring where
  "banner_prefix = js ''> Auto-generated by flight-dispatcher on ''"

definition banner_suffix :: jsstring where
  "banner_suffix = js ''. Re-run''"

text \<open>
  The lazy \<open>.+?\<close> followed by \<open>\. Re-run\<close>: it takes one character that is not a line
  terminator, then tries the suffix, and takes one more character each time the suffix
  fails. The result is the text matched by \<open>.+?\<close> and what follows the match.
\<close>

fun lazy_date :: "jsstring \<Rightarrow> jsstring \<Rightarrow> (jsstring \<times> jsstring) option" where
  "lazy_date acc [] = None"
| "lazy_date acc (c # cs) =
     (if is_line_terminator c then None
      else if startsWith cs banner_suffix
      then Some (acc @ [c], drop (length banner_suffix) cs)
      else lazy_date (acc @ [c]) cs)"

text \<open>The pattern of line 190 tried at the start of \<open>s\<close>.\<close>

definition match_banner_here :: "jsstring \<Rightarrow> (jsstring \<times> jsstring) option" where
  "match_banner_here s =
     (if startsWith s banner_prefix then lazy_date [] (drop (length banner_prefix) s)
      else None)"

text \<open>
  The search for the leftmost match: the text before the match, the text matched by
  \<open>.+?\<close>, the text after the match.
\<close>

fun find_banner :: "jsstring \<Rightarrow> jsstring \<Rightarrow> (jsstring \<times> jsstring \<times> jsstring) option" where
  "find_banner pre [] = None"
| "find_banner pre (c # cs) =
     (case match_banner_here (c # cs) of
        Some (d, post) \<Rightarrow> Some (pre, d, post)
      | None \<Rightarrow> find_banner (pre @ [c]) cs)"

text \<open>
  \<open>String.prototype.replace\<close> with a string as replacement expands the patterns
  \<open>$$\<close>, \<open>$&\<close>, \<open>$`\<close> and \<open>$'\<close> of the replacement (GetSubstitution). The pattern of
  line 190 has no capture group, so \<open>$1\<close> and \<open>$<name>\<close> stay as they are.
\<close>

fun get_substitution :: "jsstring \<Rightarrow> jsstring \<Rightarrow> jsstring \<Rightarrow> jsstring \<Rightarrow> jsstring" where
  "get_substitution matched pre post (c # d # rest) =
     (if c = 0x24 \<and> d = 0x24 then 0x24 # get_substitution matched pre post rest
      else if c = 0x24 \<and> d = 0x26 then matched @ get_substitution matched pre post rest
      else if c = 0x24 \<and> d = 0x60 then pre @ get_substitution matched pre post rest
      else if c = 0x24 \<and> d = 0x27 then post @ get_substitution matched pre post rest
      else c # get_substitution matched pre post (d # rest))"
| "get_substitution matched pre post rest = rest"

definition updateTimestamp :: "jsstring \<Rightarrow> jsstring \<Rightarrow> jsstring" where
  "updateTimestamp content' date =
     (case find_banner [] content' of
        None \<Rightarrow> content'
      | Some (pre, d, post) \<Rightarrow>
          pre
          @ get_substitution (banner_prefix @ d @ banner_suffix) pre post
              (banner_prefix @ date @ banner_suffix)
          @ post)"

section \<open>The parser, declaratively\<close>

text \<open>The separator class \<open>[ \t]\<close> of the heading grammar as the specification writes it.\<close>

definition is_blank :: "cu \<Rightarrow> bool" where
  "is_blank c = (c = 0x20 \<or> c = 0x09)"

text \<open>
  The language of \<open>^#{1,6}S+.+$\<close> for a separator class \<open>S\<close>: the line is \<open>n\<close> marks
  (1 to 6), then \<open>j\<close> separators (at least one), then a non-empty text without line
  terminator.
\<close>

definition heading_grammar :: "(cu \<Rightarrow> bool) \<Rightarrow> jsstring \<Rightarrow> bool" where
  "heading_grammar sep line =
     list_ex (\<lambda>n. list_ex (\<lambda>j.
         list_all is_hash (take n line) \<and> list_all sep (take j (drop n line))
         \<and> text_to_end (drop (n + j) line))
       [1..<Suc (length line)]) [1..<7]"

text \<open>The level and the header that a heading line gives to its section.\<close>

definition line_level :: "jsstring \<Rightarrow> nat" where
  "line_level line = length (takeWhile is_hash line)"

definition line_header :: "jsstring \<Rightarrow> jsstring" where
  "line_header line = trim (dropWhile is_hash line)"

text \<open>
  The lines of a document, grouped: every line that is a heading (\<open>H\<close>) opens a block and
  the lines up to the next heading are its body; the lines before the first heading are
  in no block.
\<close>

function blocks :: "(jsstring \<Rightarrow> bool) \<Rightarrow> jsstring list \<Rightarrow> (jsstring \<times> jsstring list) list" where
  "blocks H [] = []"
| "blocks H (l # ls) =
     (if H l then (l, takeWhile (\<lambda>b. \<not> H b) ls) # blocks H (dropWhile (\<lambda>b. \<not> H b) ls)
      else blocks H ls)"
  by pat_completeness auto
termination
  by (relation "measure (\<lambda>(H, ls). length ls)") (auto simp: less_Suc_eq_le length_dropWhile_le)

text \<open>
  The section of a block: the header is the trimmed text after the run of marks, the
  level is the length of the run, the content is the lines of the block, right-trimmed.
\<close>

definition block_section :: "jsstring \<times> jsstring list \<Rightarrow> Section" where
  "block_section b = \<lparr>header = line_header (fst b), level = line_level (fst b),
     content = trimEnd (join [0x0A] (fst b # snd b))\<rparr>"

text \<open>Line 69: the last section is pushed only when its header is not empty.\<close>

definition named_sections :: "Section list \<Rightarrow> Section list" where
  "named_sections secs = (if secs \<noteq> [] \<and> header (last secs) = [] then butlast secs else secs)"

text \<open>The heading lines of the parser: the grammar with the separator class \<open>\s\<close>.\<close>

abbreviation (input) heading :: "jsstring \<Rightarrow> bool" where
  "heading \<equiv> heading_grammar is_space"

text \<open>Lines 69 to 75, on the state that the loop leaves.\<close>

definition finish :: "parse_state \<Rightarrow> Section list" where
  "finish st = (if inSection st \<and> currentSectionHeader st \<noteq> []
     then sections st @ [current_section st] else sections st)"

section \<open>The checkbox grammar, declaratively\<close>

text \<open>
  The text of a todo line, as the patterns of lines 119 and 121 take it: the trimmed
  line starts with \<open>- [ ]\<close> or \<open>- [x]\<close>, and what follows the box, after white space
  that may be missing, is a non-empty text without line terminator.
\<close>

definition checkbox_text :: "jsstring \<Rightarrow> jsstring option" where
  "checkbox_text l =
     (let s = trim l; t = dropWhile is_space (drop 5 s) in
      if (take 5 s = js ''- [ ]'' \<or> take 5 s = js ''- [x]'') \<and> text_to_end t
      then Some t else None)"

text \<open>
  The checkbox grammar as the specification writes it, \<open>- [ ] text\<close> or \<open>- [x] text\<close>:
  the trimmed line is the box, a space and the text, whatever its characters; the todo
  is the trimmed text, when it is not empty.
\<close>

definition written_checkbox_text :: "jsstring \<Rightarrow> jsstring option" where
  "written_checkbox_text l =
     (let s = trim l in
      if (take 6 s = js ''- [ ] '' \<or> take 6 s = js ''- [x] '') \<and> trim (drop 6 s) \<noteq> []
      then Some (trim (drop 6 s)) else None)"

section \<open>The banner pattern, declaratively\<close>

text \<open>
  The banner pattern matches \<open>s\<close> at position \<open>i\<close> with a date span of \<open>k\<close> characters:
  the prefix is at \<open>i\<close>, then \<open>k\<close> characters (at least one) that are no line
  terminators, then the suffix.
\<close>

definition banner_at :: "jsstring \<Rightarrow> nat \<Rightarrow> nat \<Rightarrow> bool" where
  "banner_at s i k =
     (startsWith (drop i s) banner_prefix \<and> 1 \<le> k
      \<and> list_all is_dot (take k (drop (i + length banner_prefix) s))
      \<and> startsWith (drop (i + length banner_prefix + k) s) banner_suffix)"

text \<open>Some substring of \<open>s\<close> matches the banner pattern.\<close>

definition banner_matches :: "jsstring \<Rightarrow> bool" where
  "banner_matches s =
     list_ex (\<lambda>i. list_ex (\<lambda>k. banner_at s i k) [1..<Suc (length s)]) [0..<Suc (length s)]"

text \<open>
  The first match: no match starts before \<open>i\<close>, and no match at \<open>i\<close> has a shorter
  date span.
\<close>

definition first_banner :: "jsstring \<Rightarrow> nat \<Rightarrow> nat \<Rightarrow> bool" where
  "first_banner s i k =
     (banner_at s i k
      \<and> list_all (\<lambda>i'. list_all (\<lambda>k'. \<not> banner_at s i' k') [1..<Suc (length s)]) [0..<i]
      \<and> list_all (\<lambda>k'. \<not> banner_at s i k') [1..<k])"

section \<open>Documents that parse back\<close>

text \<open>The document has no line terminator but the line feed: no CR, LS (U+2028), PS (U+2029).\<close>

definition no_bare_terminator :: "jsstring \<Rightarrow> bool" where
  "no_bare_terminator d = list_all (\<lambda>c. c \<noteq> 0x0D \<and> c \<noteq> 0x2028 \<and> c \<noteq> 0x2029) d"

text \<open>
  The content of the section, parsed alone, gives the section back: its first line is a
  heading with the header and the level of the section, no other line is a heading, and
  the content is right-trimmed.
\<close>

definition reparses :: "Section \<Rightarrow> bool" where
  "reparses s =
     (case split_nl (content s) of
        [] \<Rightarrow> False
      | hl # body \<Rightarrow>
          heading hl \<and> line_header hl = header s \<and> line_level hl = level s
          \<and> list_all (\<lambda>l. \<not> heading l) body \<and> trimEnd (content s) = content s)"

section \<open>The operations with failure as a result\<close>

text \<open>
  The source has no \<open>throw\<close>; what can fail in it is reading a property, or calling a
  method, of \<open>undefined\<close> or \<open>null\<close>, which throws a TypeError. This part writes the
  operations again with every such read as a possible failure: an array element
  (\<open>undefined\<close> out of range), a capture of a match, the line on which \<open>match\<close> is called.
\<close>

datatype js_error = TypeError

text \<open>\<open>xs[i]\<close>: \<open>undefined\<close> when \<open>i\<close> is out of range.\<close>

definition element_at :: "'a list \<Rightarrow> nat \<Rightarrow> 'a option" where
  "element_at xs i = (if i < length xs then Some (xs ! i) else None)"

text \<open>Reading a property of a value that may be \<open>undefined\<close> or \<open>null\<close>.\<close>

definition deref :: "'a option \<Rightarrow> js_error + 'a" where
  "deref v = (case v of None \<Rightarrow> Inl TypeError | Some x \<Rightarrow> Inr x)"

text \<open>
  The array that \<open>match\<close> returns (\<open>null\<close> is \<open>None\<close>): the match, then the captures.
  Each group of the two patterns takes part in every match.
\<close>

definition exec_heading :: "jsstring \<Rightarrow> jsstring list option" where
  "exec_heading line =
     (case match_heading line of
        None \<Rightarrow> None
      | Some (lv, t) \<Rightarrow> Some [line, take lv line, t])"

definition exec_todo :: "jsstring \<Rightarrow> jsstring list option" where
  "exec_todo s = (case match_todo s of None \<Rightarrow> None | Some t \<Rightarrow> Some [s, t])"

text \<open>Lines 41 to 65, with \<open>lines[i]\<close>, \<open>match[1]\<close> and \<open>match[2]\<close> read through \<open>deref\<close>.\<close>

definition parse_line_checked :: "parse_state \<Rightarrow> jsstring option \<Rightarrow> js_error + parse_state" where
  "parse_line_checked st v =
     (case deref v of
        Inl e \<Rightarrow> Inl e
      | Inr line \<Rightarrow>
          (case exec_heading line of
             Some m \<Rightarrow>
               (case deref (element_at m 1) of
                  Inl e \<Rightarrow> Inl e
                | Inr c1 \<Rightarrow>
                    (case deref (element_at m 2) of
                       Inl e \<Rightarrow> Inl e
                     | Inr c2 \<Rightarrow>
                         Inr \<lparr>sections =
                                (if inSection st \<or> currentSectionHeader st \<noteq> []
                                 then sections st @ [current_section st] else sections st),
                              currentSectionHeader = trim c2,
                              currentSectionLevel = length c1,
                              currentContent = [line],
                              inSection = True\<rparr>))
           | None \<Rightarrow>
               Inr (if inSection st then st\<lparr>currentContent := currentContent st @ [line]\<rparr>
                    else st)))"

text \<open>The loop of line 40, on the index.\<close>

function parse_loop :: "jsstring list \<Rightarrow> nat \<Rightarrow> parse_state \<Rightarrow> js_error + parse_state" where
  "parse_loop lines i st =
     (if i < length lines
      then (case parse_line_checked st (element_at lines i) of
              Inl e \<Rightarrow> Inl e
            | Inr st' \<Rightarrow> parse_loop lines (Suc i) st')
      else Inr st)"
  by pat_completeness auto
termination
  by (relation "measure (\<lambda>(lines, i, st). length lines - i)") auto

declare parse_loop.simps [simp del]

definition parseSections_checked :: "jsstring \<Rightarrow> js_error + Section list" where
  "parseSections_checked markdown =
     (case parse_loop (split_nl markdown) 0 parse_init of
        Inl e \<Rightarrow> Inl e
      | Inr st \<Rightarrow>
          Inr (if inSection st \<and> currentSectionHeader st \<noteq> []
               then sections st @ [current_section st] else sections st))"

fun map_checked :: "('a \<Rightarrow> js_error + 'b) \<Rightarrow> 'a list \<Rightarrow> js_error + 'b list" where
  "map_checked f [] = Inr []"
| "map_checked f (x # xs) =
     (case f x of
        Inl e \<Rightarrow> Inl e
      | Inr y \<Rightarrow> (case map_checked f xs of Inl e \<Rightarrow> Inl e | Inr ys \<Rightarrow> Inr (y # ys)))"

text \<open>Lines 120 to 123: \<open>m[1]\<close> is read when \<open>m\<close> is not \<open>null\<close>.\<close>

definition todo_text_checked :: "jsstring \<Rightarrow> js_error + jsstring" where
  "todo_text_checked l =
     (case exec_todo (trim l) of
        Some m \<Rightarrow> (case deref (element_at m 1) of Inl e \<Rightarrow> Inl e | Inr c \<Rightarrow> Inr (trim c))
      | None \<Rightarrow> Inr [])"

definition extract_todos_checked :: "Section option \<Rightarrow> js_error + jsstring list" where
  "extract_todos_checked todoSection =
     (case todoSection of
        Some s \<Rightarrow>
          (case map_checked todo_text_checked
                  (filter (\<lambda>l. match_checkbox (trim l)) (split_nl (content s))) of
             Inl e \<Rightarrow> Inl e
           | Inr ts \<Rightarrow> Inr (filter (\<lambda>t. t \<noteq> []) ts))
      | None \<Rightarrow> Inr [])"

definition extractPreservedData_checked :: "jsstring \<Rightarrow> js_error + PreservedData" where
  "extractPreservedData_checked existingContent =
     (case parseSections_checked existingContent of
        Inl e \<Rightarrow> Inl e
      | Inr secs \<Rightarrow>
          (case extract_todos_checked (find (\<lambda>s. header s = js ''Pending TODOs'') secs) of
             Inl e \<Rightarrow> Inl e
           | Inr ts \<Rightarrow>
               Inr \<lparr>description =
                      extract_description (find (\<lambda>s. header s = js ''About This Project'') secs),
                    architectureRules =
                      extract_rules (find (\<lambda>s. header s = js ''Architecture Rules'') secs),
                    todos = ts\<rparr>))"

text \<open>Lines 137 to 184: \<open>existing\<close> is used under \<open>if (existing)\<close> only.\<close>

definition merge_checked :: "jsstring \<Rightarrow> jsstring \<Rightarrow> js_error + jsstring" where
  "merge_checked existingContent newContent =
     (case parseSections_checked existingContent of
        Inl e \<Rightarrow> Inl e
      | Inr existingSections \<Rightarrow>
          (case parseSections_checked newContent of
             Inl e \<Rightarrow> Inl e
           | Inr newSections \<Rightarrow>
               Inr (join_sections
                 (foldl (append_custom (sections_map newSections))
                    (foldl (\<lambda>fs newSection.
                        fs @ [select_section (sections_map existingSections) newSection])
                      [] newSections)
                    existingSections))))"

text \<open>
  Line 189 calls \<open>replace\<close> on the string it is given, with a pattern and a string: it
  reads no property of a value that may be \<open>undefined\<close>.
\<close>

definition updateTimestamp_checked :: "jsstring \<Rightarrow> jsstring \<Rightarrow> js_error + jsstring" where
  "updateTimestamp_checked content' date = Inr (updateTimestamp content' date)"


section \<open>Lines and trimming\<close>

lemma js_newline: "js ''\<newline>'' = [0x0A]"
  by (simp add: js_def)

lemma split_nl_not_Nil: "split_nl s \<noteq> []"
  by (induction s) (auto split: list.splits)

lemma split_nl_Cons_other:
  "c \<noteq> 0x0A \<Longrightarrow> split_nl (c # cs) = (c # hd (split_nl cs)) # tl (split_nl cs)"
  using split_nl_not_Nil [of cs] by (cases "split_nl cs") simp_all

lemma split_nl_append_nl: "split_nl (a @ 0x0A # b) = split_nl a @ split_nl b"
proof (induction a)
  case Nil
  show ?case by simp
next
  case (Cons c a)
  show ?case
  proof (cases "c = 0x0A")
    case True
    with Cons show ?thesis by simp
  next
    case False
    obtain l ls where ls: "split_nl a = l # ls"
      using split_nl_not_Nil [of a] by (cases "split_nl a") auto
    with False Cons show ?thesis by simp
  qed
qed

lemma split_nl_no_nl: "0x0A \<notin> set s \<Longrightarrow> split_nl s = [s]"
  by (induction s) auto

lemma join_split_nl: "join [0x0A] (split_nl s) = s"
proof (induction s)
  case Nil
  show ?case by simp
next
  case (Cons c s)
  obtain l ls where ls: "split_nl s = l # ls"
    using split_nl_not_Nil [of s] by (cases "split_nl s") auto
  with Cons show ?case by (cases ls) auto
qed

lemma join_snoc: "ls \<noteq> [] \<Longrightarrow> join sep (ls @ [l]) = join sep ls @ sep @ l"
  by (induction sep ls rule: join.induct) simp_all

lemma join_Cons: "ls \<noteq> [] \<Longrightarrow> join sep (l # ls) = l @ sep @ join sep ls"
  by (cases ls) simp_all

lemma split_nl_join:
  "ls \<noteq> [] \<Longrightarrow> \<forall>l\<in>set ls. 0x0A \<notin> set l \<Longrightarrow> split_nl (join [0x0A] ls) = ls"
proof (induction ls rule: rev_induct)
  case Nil
  then show ?case by simp
next
  case (snoc l ls)
  show ?case
  proof (cases "ls = []")
    case True
    with snoc.prems show ?thesis by (simp add: split_nl_no_nl)
  next
    case False
    with snoc have "split_nl (join [0x0A] ls) = ls" by simp
    with False snoc.prems show ?thesis
      by (simp add: join_snoc split_nl_append_nl split_nl_no_nl)
  qed
qed

lemma split_nl_line_chars: "l \<in> set (split_nl s) \<Longrightarrow> set l \<subseteq> set s - {0x0A}"
proof (induction s arbitrary: l)
  case Nil
  then show ?case by simp
next
  case (Cons c s)
  obtain k ks where ks: "split_nl s = k # ks"
    using split_nl_not_Nil [of s] by (cases "split_nl s") auto
  show ?case
  proof (cases "c = 0x0A")
    case True
    with Cons show ?thesis by auto
  next
    case False
    with Cons.prems ks have "l = c # k \<or> l \<in> set ks" by simp
    then show ?thesis
    proof
      assume "l = c # k"
      moreover have "set k \<subseteq> set s - {0x0A}" using Cons.IH [of k] ks by simp
      ultimately show ?thesis using False by auto
    next
      assume "l \<in> set ks"
      then have "set l \<subseteq> set s - {0x0A}" using Cons.IH [of l] ks by simp
      then show ?thesis by auto
    qed
  qed
qed

lemma trimEnd_decomp: "\<exists>z. s = trimEnd s @ z \<and> list_all is_space z"
proof -
  have "rev s = takeWhile is_space (rev s) @ dropWhile is_space (rev s)" by simp
  then have "s = rev (dropWhile is_space (rev s)) @ rev (takeWhile is_space (rev s))"
    by (metis rev_append rev_rev_ident)
  moreover have "list_all is_space (rev (takeWhile is_space (rev s)))"
    by (simp add: list_all_iff) (meson set_takeWhileD)
  ultimately show ?thesis unfolding trimEnd_def by blast
qed

lemma trimEnd_append_space: "list_all is_space z \<Longrightarrow> trimEnd (s @ z) = trimEnd s"
proof -
  assume "list_all is_space z"
  then have "\<And>x. x \<in> set (rev z) \<Longrightarrow> is_space x" by (simp add: list_all_iff)
  then have "dropWhile is_space (rev z @ rev s) = dropWhile is_space (rev s)"
    by (rule dropWhile_append2)
  then show ?thesis by (simp add: trimEnd_def)
qed

lemma trimEnd_append_text: "\<not> list_all is_space t \<Longrightarrow> trimEnd (s @ t) = s @ trimEnd t"
proof -
  assume "\<not> list_all is_space t"
  then obtain x where "x \<in> set (rev t)" "\<not> is_space x" by (auto simp: list_all_iff)
  then show ?thesis by (simp add: trimEnd_def)
qed

lemma trimEnd_Nil_iff: "(trimEnd s = []) = list_all is_space s"
  by (simp add: trimEnd_def list_all_iff)

lemma trimEnd_last: "trimEnd s \<noteq> [] \<Longrightarrow> \<not> is_space (last (trimEnd s))"
proof -
  assume "trimEnd s \<noteq> []"
  then have ne: "dropWhile is_space (rev s) \<noteq> []" by (simp add: trimEnd_def)
  then have "\<not> is_space (hd (dropWhile is_space (rev s)))" by (rule hd_dropWhile)
  with ne show ?thesis by (simp add: trimEnd_def last_rev)
qed

lemma trimEnd_id: "s = [] \<or> \<not> is_space (last s) \<Longrightarrow> trimEnd s = s"
  by (cases s rule: rev_cases) (auto simp: trimEnd_def)

lemma trimEnd_idem: "trimEnd (trimEnd s) = trimEnd s"
  using trimEnd_last [of s] by (intro trimEnd_id) blast

lemma trimEnd_all_space: "list_all is_space s \<Longrightarrow> trimEnd s = []"
  by (simp add: trimEnd_Nil_iff)

lemma trim_space_prefix: "list_all is_space w \<Longrightarrow> trim (w @ t) = trim t"
proof -
  assume "list_all is_space w"
  then have "\<And>x. x \<in> set w \<Longrightarrow> is_space x" by (simp add: list_all_iff)
  then have "dropWhile is_space (w @ t) = dropWhile is_space t"
    by (rule dropWhile_append2)
  then show ?thesis by (simp add: trim_def trimStart_def)
qed

lemma trim_id: "t \<noteq> [] \<Longrightarrow> \<not> is_space (hd t) \<Longrightarrow> \<not> is_space (last t) \<Longrightarrow> trim t = t"
  by (cases t) (simp_all add: trim_def trimStart_def trimEnd_id)

section \<open>The heading pattern\<close>

lemma heading_grammar_iff:
  "heading_grammar sep line =
     (\<exists>h w t. line = h @ w @ t \<and> h \<noteq> [] \<and> length h \<le> 6 \<and> list_all is_hash h
        \<and> w \<noteq> [] \<and> list_all sep w \<and> text_to_end t)"
proof
  assume "heading_grammar sep line"
  then obtain n j where nj: "1 \<le> n" "n \<le> 6" "1 \<le> j" "list_all is_hash (take n line)"
      "list_all sep (take j (drop n line))" "text_to_end (drop (n + j) line)"
    by (auto simp: heading_grammar_def list_ex_iff)
  from nj(6) have len: "n + j < length line" by (simp add: text_to_end_def)
  have "line = take n line @ take j (drop n line) @ drop (n + j) line"
    by (metis append_take_drop_id drop_drop add.commute)
  moreover have "take n line \<noteq> []" "take j (drop n line) \<noteq> []" "length (take n line) \<le> 6"
    using nj len by auto
  ultimately show "\<exists>h w t. line = h @ w @ t \<and> h \<noteq> [] \<and> length h \<le> 6 \<and> list_all is_hash h
        \<and> w \<noteq> [] \<and> list_all sep w \<and> text_to_end t"
    using nj by blast
next
  assume "\<exists>h w t. line = h @ w @ t \<and> h \<noteq> [] \<and> length h \<le> 6 \<and> list_all is_hash h
        \<and> w \<noteq> [] \<and> list_all sep w \<and> text_to_end t"
  then obtain h w t where d: "line = h @ w @ t" "h \<noteq> []" "length h \<le> 6" "list_all is_hash h"
      "w \<noteq> []" "list_all sep w" "text_to_end t"
    by blast
  have "Suc 0 \<le> length h" "Suc 0 \<le> length w"
    using d(2,5) by (simp_all add: Suc_le_eq)
  then have "length h \<in> set [1..<7]" "length w \<in> set [1..<Suc (length line)]"
    using d(1,3) by simp_all
  moreover have "list_all is_hash (take (length h) line)" using d by simp
  moreover have "list_all sep (take (length w) (drop (length h) line))" using d by simp
  moreover have "text_to_end (drop (length h + length w) line)" using d by simp
  ultimately show "heading_grammar sep line"
    unfolding heading_grammar_def list_ex_iff by blast
qed

lemma space_not_hash: "is_space c \<Longrightarrow> \<not> is_hash c"
  by (auto simp: is_space_def is_hash_def is_line_terminator_def)

lemma ws_then_text_Some:
  "ws_then_text lo j r = Some t \<Longrightarrow> \<exists>i. lo \<le> i \<and> i \<le> j \<and> t = drop i r \<and> text_to_end t"
proof (induction j)
  case 0
  then show ?case by (auto split: if_splits)
next
  case (Suc j)
  show ?case
  proof (cases "text_to_end (drop (Suc j) r)")
    case True
    with Suc.prems have "lo \<le> Suc j" "t = drop (Suc j) r" by (auto split: if_splits)
    with True show ?thesis by blast
  next
    case False
    with Suc.prems have "ws_then_text lo j r = Some t" by (auto split: if_splits)
    with Suc.IH show ?thesis by (meson le_Suc_eq)
  qed
qed

lemma ws_then_text_None:
  "ws_then_text lo j r = None \<Longrightarrow> lo \<le> i \<Longrightarrow> i \<le> j \<Longrightarrow> \<not> text_to_end (drop i r)"
proof (induction j)
  case 0
  then show ?case by (auto split: if_splits)
next
  case (Suc j)
  show ?case
  proof (cases "i = Suc j")
    case True
    with Suc.prems show ?thesis by (auto split: if_splits)
  next
    case False
    with Suc.prems have "i \<le> j" by simp
    moreover from Suc.prems have "ws_then_text lo j r = None" by (auto split: if_splits)
    ultimately show ?thesis using Suc.IH Suc.prems(2) by blast
  qed
qed

lemma hashes_then_rest_Some:
  "hashes_then_rest k line = Some (lv, t) \<Longrightarrow>
     1 \<le> lv \<and> lv \<le> k
     \<and> ws_then_text 1 (length (takeWhile is_space (drop lv line))) (drop lv line) = Some t"
  by (induction k) (auto simp: Let_def split: option.splits)

lemma hashes_then_rest_None:
  "hashes_then_rest k line = None \<Longrightarrow> 1 \<le> lv \<Longrightarrow> lv \<le> k \<Longrightarrow>
     ws_then_text 1 (length (takeWhile is_space (drop lv line))) (drop lv line) = None"
proof (induction k)
  case 0
  then show ?case by simp
next
  case (Suc k)
  then show ?case by (cases "lv = Suc k") (auto simp: Let_def split: option.splits)
qed

lemma take_takeWhile_length: "i \<le> length (takeWhile P r) \<Longrightarrow> list_all P (take i r)"
proof -
  assume "i \<le> length (takeWhile P r)"
  then have "take i r = take i (takeWhile P r)"
    by (metis append_eq_conv_conj takeWhile_dropWhile_id take_all_iff take_append
        diff_is_0_eq' take_0 append_Nil2 min.absorb2 take_take)
  then show ?thesis
    by (metis in_set_takeD list_all_iff set_takeWhileD)
qed

lemma all_hash_replicate: "list_all is_hash h \<Longrightarrow> h = replicate (length h) 0x23"
  by (induction h) (simp_all add: is_hash_def)

lemma takeWhile_hash_run:
  assumes "list_all is_hash h" "w \<noteq> []" "list_all is_space w"
  shows "takeWhile is_hash (h @ w @ t) = h" and "dropWhile is_hash (h @ w @ t) = w @ t"
proof -
  from assms obtain a w' where w: "w = a # w'" "\<not> is_hash a"
    by (cases w) (auto simp: space_not_hash)
  from assms(1) have h: "\<And>x. x \<in> set h \<Longrightarrow> is_hash x" by (simp add: list_all_iff)
  from h w show "takeWhile is_hash (h @ w @ t) = h" by (simp add: takeWhile_append2)
  from h w show "dropWhile is_hash (h @ w @ t) = w @ t" by (simp add: dropWhile_append2)
qed

lemma match_heading_SomeD:
  assumes "match_heading line = Some (lv, t)"
  shows "\<exists>h w. line = h @ w @ t \<and> length h = lv \<and> 1 \<le> lv \<and> lv \<le> 6 \<and> list_all is_hash h
           \<and> w \<noteq> [] \<and> list_all is_space w \<and> text_to_end t"
proof -
  let ?n0 = "length (takeWhile is_hash line)"
  let ?r = "drop lv line"
  from assms have lv: "1 \<le> lv" "lv \<le> min 6 ?n0"
    and ws: "ws_then_text 1 (length (takeWhile is_space ?r)) ?r = Some t"
    using hashes_then_rest_Some [of "min 6 ?n0" line lv t] by (simp_all add: match_heading_def)
  from ws obtain i where i: "1 \<le> i" "i \<le> length (takeWhile is_space ?r)" "t = drop i ?r"
      "text_to_end t"
    using ws_then_text_Some by blast
  have len: "lv + i < length line" using i(3,4) by (simp add: text_to_end_def)
  have "line = take lv line @ take i ?r @ t"
    using i(3) by (metis append_take_drop_id)
  moreover have "length (take lv line) = lv" using len by simp
  moreover have "list_all is_hash (take lv line)"
    using lv(2) by (intro take_takeWhile_length) simp
  moreover have "take i ?r \<noteq> []" using i(1) len by auto
  moreover have "list_all is_space (take i ?r)" using i(2) by (rule take_takeWhile_length)
  ultimately show ?thesis using lv i(4) by (intro exI [of _ "take lv line"] exI [of _ "take i ?r"]) simp
qed

lemma match_heading_level:
  "match_heading line = Some (lv, t) \<Longrightarrow> lv = length (takeWhile is_hash line)"
  using match_heading_SomeD [of line lv t] by (auto simp: takeWhile_hash_run)

lemma match_heading_header:
  "match_heading line = Some (lv, t) \<Longrightarrow> trim t = trim (dropWhile is_hash line)"
  using match_heading_SomeD [of line lv t] by (auto simp: takeWhile_hash_run trim_space_prefix)

lemma match_heading_grammar: "(match_heading line \<noteq> None) = heading_grammar is_space line"
proof
  assume "match_heading line \<noteq> None"
  then obtain lv t where "match_heading line = Some (lv, t)" by auto
  from match_heading_SomeD [OF this] show "heading_grammar is_space line"
    unfolding heading_grammar_iff by (metis One_nat_def length_0_conv not_one_le_zero)
next
  assume "heading_grammar is_space line"
  then obtain h w t where d: "line = h @ w @ t" "h \<noteq> []" "length h \<le> 6" "list_all is_hash h"
      "w \<noteq> []" "list_all is_space w" "text_to_end t"
    unfolding heading_grammar_iff by blast
  have run: "takeWhile is_hash line = h" using d by (simp add: takeWhile_hash_run)
  have lenh: "1 \<le> length h" using d(2) by (simp add: Suc_le_eq)
  show "match_heading line \<noteq> None"
  proof
    assume "match_heading line = None"
    then have "hashes_then_rest (length h) line = None"
      using d(3) by (simp add: match_heading_def run)
    from hashes_then_rest_None [OF this lenh]
    have none: "ws_then_text 1 (length (takeWhile is_space (w @ t))) (w @ t) = None"
      using d(1) by simp
    have "\<And>x. x \<in> set w \<Longrightarrow> is_space x" using d(6) by (simp add: list_all_iff)
    then have "takeWhile is_space (w @ t) = w @ takeWhile is_space t"
      by (rule takeWhile_append2)
    then have "length w \<le> length (takeWhile is_space (w @ t))" by simp
    moreover have "1 \<le> length w" using d(5) by (simp add: Suc_le_eq)
    ultimately have "\<not> text_to_end (drop (length w) (w @ t))"
      using ws_then_text_None [OF none] by blast
    with d(7) show False by simp
  qed
qed

lemma match_heading_Nil: "match_heading [] = None"
  by (simp add: match_heading_def)

section \<open>The loop of parseSections\<close>

lemma parse_line_heading:
  "heading line \<Longrightarrow> parse_line st line =
     \<lparr>sections = (if inSection st \<or> currentSectionHeader st \<noteq> []
                   then sections st @ [current_section st] else sections st),
      currentSectionHeader = line_header line, currentSectionLevel = line_level line,
      currentContent = [line], inSection = True\<rparr>"
proof -
  assume "heading line"
  then obtain lv t where m: "match_heading line = Some (lv, t)"
    using match_heading_grammar [of line] by auto
  from match_heading_level [OF m] match_heading_header [OF m] m show ?thesis
    by (simp add: parse_line_def line_header_def line_level_def)
qed

lemma parse_line_other:
  "\<not> heading line \<Longrightarrow> parse_line st line =
     (if inSection st then st\<lparr>currentContent := currentContent st @ [line]\<rparr> else st)"
proof -
  assume "\<not> heading line"
  then have "match_heading line = None" using match_heading_grammar [of line] by blast
  then show ?thesis by (simp add: parse_line_def)
qed

lemma parseSections_finish: "parseSections md = finish (foldl parse_line parse_init (split_nl md))"
  by (simp add: parseSections_def finish_def Let_def)

lemma named_sections_Cons: "secs \<noteq> [] \<Longrightarrow> named_sections (s # secs) = s # named_sections secs"
  by (simp add: named_sections_def)

lemma foldl_parse_open:
  assumes "inSection st"
    and "currentContent st = hl # body"
    and "currentSectionHeader st = line_header hl"
    and "currentSectionLevel st = line_level hl"
  shows "finish (foldl parse_line st ls) =
     sections st @ named_sections (map block_section
       ((hl, body @ takeWhile (\<lambda>b. \<not> heading b) ls)
          # blocks heading (dropWhile (\<lambda>b. \<not> heading b) ls)))"
  using assms
proof (induction ls arbitrary: st hl body)
  case Nil
  then show ?case
    by (simp add: finish_def named_sections_def block_section_def current_section_def js_newline)
next
  case (Cons l ls)
  show ?case
  proof (cases "heading l")
    case False
    let ?st = "st\<lparr>currentContent := currentContent st @ [l]\<rparr>"
    have step: "parse_line st l = ?st" using False Cons.prems(1) by (simp add: parse_line_other)
    have "finish (foldl parse_line ?st ls) =
       sections ?st @ named_sections (map block_section
         ((hl, (body @ [l]) @ takeWhile (\<lambda>b. \<not> heading b) ls)
            # blocks heading (dropWhile (\<lambda>b. \<not> heading b) ls)))"
      using Cons.prems by (intro Cons.IH) simp_all
    with step False show ?thesis by simp
  next
    case True
    let ?st = "parse_line st l"
    have st': "?st = \<lparr>sections = sections st @ [current_section st],
      currentSectionHeader = line_header l, currentSectionLevel = line_level l,
      currentContent = [l], inSection = True\<rparr>"
      using True Cons.prems(1) by (simp add: parse_line_heading)
    have cur: "current_section st = block_section (hl, body)"
      using Cons.prems by (simp add: current_section_def block_section_def js_newline)
    have "finish (foldl parse_line ?st ls) =
       sections ?st @ named_sections (map block_section
         ((l, [] @ takeWhile (\<lambda>b. \<not> heading b) ls)
            # blocks heading (dropWhile (\<lambda>b. \<not> heading b) ls)))"
      by (intro Cons.IH) (simp_all add: st')
    with True cur show ?thesis by (simp add: st' named_sections_Cons)
  qed
qed

lemma foldl_parse_init:
  "finish (foldl parse_line parse_init ls) = named_sections (map block_section (blocks heading ls))"
proof (induction ls)
  case Nil
  show ?case by (simp add: finish_def parse_init_def named_sections_def)
next
  case (Cons l ls)
  show ?case
  proof (cases "heading l")
    case False
    then have "parse_line parse_init l = parse_init"
      by (simp add: parse_line_other parse_init_def)
    with Cons False show ?thesis by simp
  next
    case True
    let ?st = "parse_line parse_init l"
    have st': "?st = \<lparr>sections = [], currentSectionHeader = line_header l,
      currentSectionLevel = line_level l, currentContent = [l], inSection = True\<rparr>"
      using True by (simp add: parse_line_heading parse_init_def)
    have "finish (foldl parse_line ?st ls) =
       sections ?st @ named_sections (map block_section
         ((l, [] @ takeWhile (\<lambda>b. \<not> heading b) ls)
            # blocks heading (dropWhile (\<lambda>b. \<not> heading b) ls)))"
      by (intro foldl_parse_open) (simp_all add: st')
    with True show ?thesis by (simp add: st')
  qed
qed

lemma parseSections_blocks:
  "parseSections md = named_sections (map block_section (blocks heading (split_nl md)))"
  by (simp add: parseSections_finish foldl_parse_init)

section \<open>Blocks\<close>

lemma blocks_no_heading: "\<forall>l\<in>set ls. \<not> H l \<Longrightarrow> blocks H ls = []"
  by (induction ls) simp_all

lemma blocks_preamble: "\<forall>l\<in>set pre. \<not> H l \<Longrightarrow> blocks H (pre @ ls) = blocks H ls"
  by (induction pre) simp_all

lemma split_nl_lines_no_nl: "l \<in> set (split_nl s) \<Longrightarrow> 0x0A \<notin> set l"
  using split_nl_line_chars [of l s] by auto

lemma heading_level_bounds:
  assumes "heading line"
  shows "1 \<le> line_level line" and "line_level line \<le> 6"
    and "list_ex is_space (take 1 (dropWhile is_hash line))"
proof -
  from assms obtain h w t where d: "line = h @ w @ t" "h \<noteq> []" "length h \<le> 6" "list_all is_hash h"
      "w \<noteq> []" "list_all is_space w" "text_to_end t"
    unfolding heading_grammar_iff by blast
  have run: "takeWhile is_hash line = h" "dropWhile is_hash line = w @ t"
    using d by (simp_all add: takeWhile_hash_run)
  show "1 \<le> line_level line" using d(2) by (simp add: line_level_def run Suc_le_eq)
  show "line_level line \<le> 6" using d(3) by (simp add: line_level_def run)
  show "list_ex is_space (take 1 (dropWhile is_hash line))"
    using d(5,6) by (cases w) (simp_all add: run)
qed

section \<open>Right-trimmed blocks\<close>

lemma dropWhile_all_space: "list_all is_space s \<Longrightarrow> dropWhile is_space s = []"
  by (induction s) simp_all

lemma is_space_nl: "is_space 0x0A"
  by (simp add: is_space_def is_line_terminator_def)

lemma trim_append_space: "list_all is_space z \<Longrightarrow> trim (s @ z) = trim s"
proof (cases "list_all is_space s")
  case True
  assume "list_all is_space z"
  with True have "list_all is_space (s @ z)" by simp
  then have "dropWhile is_space (s @ z) = []" by (rule dropWhile_all_space)
  moreover from True have "dropWhile is_space s = []" by (rule dropWhile_all_space)
  ultimately show ?thesis unfolding trim_def trimStart_def by (simp only:)
next
  case False
  assume z: "list_all is_space z"
  from False obtain x where "x \<in> set s" "\<not> is_space x" by (auto simp: list_all_iff)
  then have "dropWhile is_space (s @ z) = dropWhile is_space s @ z" by simp
  with z show ?thesis by (simp add: trim_def trimStart_def trimEnd_append_space)
qed

lemma trim_trimEnd: "trim (trimEnd t) = trim t"
proof -
  obtain z where "t = trimEnd t @ z" "list_all is_space z" using trimEnd_decomp by blast
  then show ?thesis by (metis trim_append_space)
qed

lemma trim_all_space: "list_all is_space t \<Longrightarrow> trim t = []"
  by (simp add: trim_def trimStart_def trimEnd_def dropWhile_all_space)

lemma trimEnd_subset: "set (trimEnd s) \<subseteq> set s"
proof -
  obtain z where "s = trimEnd s @ z" using trimEnd_decomp by blast
  then show ?thesis by (metis set_append Un_upper1)
qed

lemma text_to_end_trimEnd:
  "text_to_end t \<Longrightarrow> \<not> list_all is_space t \<Longrightarrow> text_to_end (trimEnd t)"
  using trimEnd_subset [of t] by (auto simp: text_to_end_def trimEnd_Nil_iff list_all_iff)

text \<open>A heading line with a non-empty header is the same heading once right-trimmed.\<close>

lemma heading_trimEnd:
  assumes "heading hl" "line_header hl \<noteq> []"
  shows "heading (trimEnd hl)" and "line_header (trimEnd hl) = line_header hl"
    and "line_level (trimEnd hl) = line_level hl"
proof -
  from assms(1) obtain h w t where d: "hl = h @ w @ t" "h \<noteq> []" "length h \<le> 6"
      "list_all is_hash h" "w \<noteq> []" "list_all is_space w" "text_to_end t"
    unfolding heading_grammar_iff by blast
  have run: "takeWhile is_hash hl = h" "dropWhile is_hash hl = w @ t"
    using d by (simp_all add: takeWhile_hash_run)
  from assms(2) have "trim t \<noteq> []" by (simp add: line_header_def run trim_space_prefix d(6))
  then have ns: "\<not> list_all is_space t" using trim_all_space by blast
  then have "trimEnd ((h @ w) @ t) = (h @ w) @ trimEnd t" by (rule trimEnd_append_text)
  then have e: "trimEnd hl = h @ w @ trimEnd t" by (simp add: d(1))
  have t': "text_to_end (trimEnd t)" using d(7) ns by (rule text_to_end_trimEnd)
  with d e show "heading (trimEnd hl)" unfolding heading_grammar_iff by blast
  have run': "takeWhile is_hash (trimEnd hl) = h" "dropWhile is_hash (trimEnd hl) = w @ trimEnd t"
    unfolding e using d by (simp_all add: takeWhile_hash_run)
  show "line_level (trimEnd hl) = line_level hl" by (simp add: line_level_def run run')
  show "line_header (trimEnd hl) = line_header hl"
    by (simp add: line_header_def run run' trim_space_prefix d(6) trim_trimEnd)
qed

text \<open>
  A line without line terminator that is no heading is no heading once right-trimmed.
  (With a carriage return at its end it can be one: \<open>(.+)$\<close> does not match before the
  carriage return, and does once it is trimmed away.)
\<close>

lemma not_heading_trimEnd:
  assumes "\<not> heading l" "list_all is_dot l"
  shows "\<not> heading (trimEnd l)"
proof
  assume "heading (trimEnd l)"
  then obtain h w t where d: "trimEnd l = h @ w @ t" "h \<noteq> []" "length h \<le> 6"
      "list_all is_hash h" "w \<noteq> []" "list_all is_space w" "text_to_end t"
    unfolding heading_grammar_iff by blast
  obtain z where z: "l = trimEnd l @ z" using trimEnd_decomp by blast
  then have l: "l = h @ w @ (t @ z)" by (simp add: d(1))
  with assms(2) have "list_all is_dot (t @ z)" by (metis list_all_append)
  with d(7) have "text_to_end (t @ z)" by (simp add: text_to_end_def)
  with d l have "heading l" unfolding heading_grammar_iff by blast
  with assms(1) show False by simp
qed

lemma heading_not_all_space: "heading hl \<Longrightarrow> \<not> list_all is_space hl"
proof -
  assume "heading hl"
  then obtain h w t where d: "hl = h @ w @ t" "h \<noteq> []" "list_all is_hash h"
    unfolding heading_grammar_iff by blast
  then obtain c where "c \<in> set h" "is_hash c" by (cases h) auto
  with d(1) show ?thesis by (auto simp: list_all_iff dest: space_not_hash)
qed

lemma join_space_lines:
  "ls \<noteq> [] \<Longrightarrow> \<forall>l\<in>set bs. list_all is_space l \<Longrightarrow>
     \<exists>z. join [0x0A] (ls @ bs) = join [0x0A] ls @ z \<and> list_all is_space z"
proof (induction bs rule: rev_induct)
  case Nil
  show ?case by simp
next
  case (snoc b bs)
  then obtain z where z: "join [0x0A] (ls @ bs) = join [0x0A] ls @ z" "list_all is_space z"
    by auto
  from snoc.prems(1) have "join [0x0A] ((ls @ bs) @ [b]) = join [0x0A] (ls @ bs) @ [0x0A] @ b"
    by (intro join_snoc) simp
  with z have "join [0x0A] (ls @ bs @ [b]) = join [0x0A] ls @ (z @ [0x0A] @ b)" by simp
  moreover have "list_all is_space (z @ [0x0A] @ b)"
    using z(2) snoc.prems(2) by (simp add: is_space_nl)
  ultimately show ?case by blast
qed

lemma trimEnd_join_space_lines:
  "ls \<noteq> [] \<Longrightarrow> \<forall>l\<in>set bs. list_all is_space l \<Longrightarrow>
     trimEnd (join [0x0A] (ls @ bs)) = trimEnd (join [0x0A] ls)"
  using join_space_lines [of ls bs] by (auto simp: trimEnd_append_space)

lemma trimEnd_join_last:
  "\<not> list_all is_space l \<Longrightarrow> trimEnd (join [0x0A] (ls @ [l])) = join [0x0A] (ls @ [trimEnd l])"
proof (cases "ls = []")
  case True
  then show ?thesis by simp
next
  case False
  assume "\<not> list_all is_space l"
  then have "trimEnd ((join [0x0A] ls @ [0x0A]) @ l) = (join [0x0A] ls @ [0x0A]) @ trimEnd l"
    by (rule trimEnd_append_text)
  with False show ?thesis by (simp add: join_snoc)
qed

text \<open>The lines of a right-trimmed block: the trailing blank lines go, the last line is trimmed.\<close>

lemma split_trimEnd_join:
  assumes "\<not> list_all is_space hl" "\<forall>l\<in>set (hl # body). 0x0A \<notin> set l"
  shows "\<exists>hl' body'. split_nl (trimEnd (join [0x0A] (hl # body))) = hl' # body'
     \<and> (hl' = hl \<or> hl' = trimEnd hl)
     \<and> (\<forall>l'\<in>set body'. \<exists>l\<in>set body. l' = l \<or> l' = trimEnd l)"
proof -
  define ks where "ks = rev (dropWhile (list_all is_space) (rev (hl # body)))"
  define bs where "bs = rev (takeWhile (list_all is_space) (rev (hl # body)))"
  have split: "hl # body = ks @ bs"
    unfolding ks_def bs_def by (metis rev_append rev_rev_ident takeWhile_dropWhile_id)
  have bs: "\<forall>l\<in>set bs. list_all is_space l"
    unfolding bs_def by (auto dest: set_takeWhileD)
  have "hl \<in> set (rev (hl # body))" by simp
  with assms(1) have dne: "dropWhile (list_all is_space) (rev (hl # body)) \<noteq> []"
    unfolding dropWhile_eq_Nil_conv by blast
  then have ne: "ks \<noteq> []" by (simp add: ks_def)
  have "last ks = hd (dropWhile (list_all is_space) (rev (hl # body)))"
    unfolding ks_def using dne by (simp only: last_rev)
  with hd_dropWhile [OF dne] have lastks: "\<not> list_all is_space (last ks)" by simp
  obtain ini where ks: "ks = ini @ [last ks]"
    using ne by (metis append_butlast_last_id)
  have t1: "trimEnd (join [0x0A] (hl # body)) = trimEnd (join [0x0A] ks)"
    unfolding split using ne bs by (rule trimEnd_join_space_lines)
  have "trimEnd (join [0x0A] (ini @ [last ks])) = join [0x0A] (ini @ [trimEnd (last ks)])"
    using lastks by (rule trimEnd_join_last)
  with ks have t2: "trimEnd (join [0x0A] ks) = join [0x0A] (ini @ [trimEnd (last ks)])"
    by simp
  have sub: "set ini \<subseteq> set (hl # body)" "last ks \<in> set (hl # body)"
    using split ks by (metis Un_iff set_append subsetI, metis Un_iff set_append list.set_intros(1))
  have nl: "\<forall>l\<in>set (ini @ [trimEnd (last ks)]). 0x0A \<notin> set l"
  proof
    fix l assume "l \<in> set (ini @ [trimEnd (last ks)])"
    then have "l \<in> set ini \<or> l = trimEnd (last ks)" by auto
    then show "0x0A \<notin> set l"
    proof
      assume "l \<in> set ini"
      with sub(1) assms(2) show ?thesis by blast
    next
      assume l: "l = trimEnd (last ks)"
      from sub(2) assms(2) have "0x0A \<notin> set (last ks)" by blast
      with trimEnd_subset [of "last ks"] l show ?thesis by blast
    qed
  qed
  have sp: "split_nl (trimEnd (join [0x0A] (hl # body))) = ini @ [trimEnd (last ks)]"
    unfolding t1 t2 using nl by (intro split_nl_join) simp_all
  show ?thesis
  proof (cases ini)
    case Nil
    with ks split have "last ks = hl" by (metis append_Cons append_Nil list.inject)
    with Nil sp show ?thesis by simp
  next
    case (Cons k ks')
    with ks split have "hl # body = k # ks' @ [last ks] @ bs" by (metis append_Cons append_assoc)
    then have k: "k = hl" and body: "body = ks' @ [last ks] @ bs" by simp_all
    have "set body = set ks' \<union> {last ks} \<union> set bs"
      by (subst body) auto
    then have in_body: "set ks' \<subseteq> set body" "last ks \<in> set body"
      by blast+
    have "\<forall>l'\<in>set (ks' @ [trimEnd (last ks)]). \<exists>l\<in>set body. l' = l \<or> l' = trimEnd l"
    proof
      fix l' assume "l' \<in> set (ks' @ [trimEnd (last ks)])"
      then have "l' \<in> set ks' \<or> l' = trimEnd (last ks)" by auto
      with in_body show "\<exists>l\<in>set body. l' = l \<or> l' = trimEnd l" by blast
    qed
    with sp Cons k show ?thesis by simp
  qed
qed

section \<open>The two loops of merge\<close>

lemma foldl_snoc_map: "foldl (\<lambda>fs x. fs @ [f x]) acc xs = acc @ map f xs"
  by (induction xs arbitrary: acc) simp_all

text \<open>The guard of line 178 compares a header with itself, so the second loop adds nothing.\<close>

lemma append_custom_id: "append_custom m fs s = fs"
  by (simp add: append_custom_def)

lemma foldl_append_custom: "foldl (append_custom m) fs es = fs"
  by (induction es arbitrary: fs) (simp_all add: append_custom_id)

lemma merge_sections_eq:
  "merge_sections e n = map (select_section (sections_map (parseSections e))) (parseSections n)"
  by (simp add: merge_sections_def Let_def foldl_snoc_map foldl_append_custom)

lemma parseSections_empty: "parseSections [] = []"
  by (simp add: parseSections_def parse_line_def match_heading_def parse_init_def)

lemma sections_map_snoc: "sections_map (secs @ [s]) = (sections_map secs)(header s \<mapsto> s)"
  by (simp add: sections_map_def)

lemma sections_map_last:
  "sections_map secs h =
     (if list_ex (\<lambda>s. header s = h) secs then Some (last (filter (\<lambda>s. header s = h) secs))
      else None)"
proof (induction secs rule: rev_induct)
  case Nil
  show ?case by (simp add: sections_map_def)
next
  case (snoc s secs)
  then show ?case by (simp add: sections_map_snoc)
qed

lemma sections_map_member: "sections_map secs h = Some s \<Longrightarrow> s \<in> set secs \<and> header s = h"
proof -
  assume a: "sections_map secs h = Some s"
  then have ex: "list_ex (\<lambda>s. header s = h) secs"
    and s: "s = last (filter (\<lambda>s. header s = h) secs)"
    by (simp_all add: sections_map_last split: if_splits)
  from ex have "filter (\<lambda>s. header s = h) secs \<noteq> []"
    by (simp add: list_ex_iff filter_empty_conv)
  then have "s \<in> set (filter (\<lambda>s. header s = h) secs)" unfolding s by (rule last_in_set)
  then show ?thesis by simp
qed

lemma select_section_header: "header (select_section (sections_map secs) s) = header s"
  by (auto simp: select_section_def dest: sections_map_member split: option.splits)

lemma merge_sections_headers: "map header (merge_sections e n) = map header (parseSections n)"
  by (simp add: merge_sections_eq select_section_header)

lemma select_section_member:
  "select_section (sections_map secs) s = s \<or> select_section (sections_map secs) s \<in> set secs"
  by (auto simp: select_section_def dest: sections_map_member split: option.splits)

section \<open>Parsing a merged document\<close>

lemma js_two_newlines: "js ''\<newline>\<newline>'' = [0x0A, 0x0A]"
  by (simp add: js_def)

lemma blocks_member:
  "(hl, body) \<in> set (blocks H ls) \<Longrightarrow>
     H hl \<and> (\<forall>l\<in>set body. \<not> H l) \<and> hl \<in> set ls \<and> set body \<subseteq> set ls"
proof (induction H ls rule: blocks.induct)
  case (1 H)
  then show ?case by simp
next
  case (2 H l ls)
  show ?case
  proof (cases "H l")
    case False
    with 2 show ?thesis by auto
  next
    case True
    with "2.prems" have "(hl, body) = (l, takeWhile (\<lambda>b. \<not> H b) ls)
        \<or> (hl, body) \<in> set (blocks H (dropWhile (\<lambda>b. \<not> H b) ls))"
      by simp
    then show ?thesis
    proof
      assume "(hl, body) = (l, takeWhile (\<lambda>b. \<not> H b) ls)"
      with True show ?thesis by (auto dest: set_takeWhileD)
    next
      assume "(hl, body) \<in> set (blocks H (dropWhile (\<lambda>b. \<not> H b) ls))"
      with "2.IH"(1) [OF True] have "H hl \<and> (\<forall>l\<in>set body. \<not> H l)
          \<and> hl \<in> set (dropWhile (\<lambda>b. \<not> H b) ls) \<and> set body \<subseteq> set (dropWhile (\<lambda>b. \<not> H b) ls)"
        by blast
      then show ?thesis by (auto dest: set_dropWhileD)
    qed
  qed
qed

lemma named_sections_subset: "set (named_sections secs) \<subseteq> set secs"
  by (auto simp: named_sections_def dest: in_set_butlastD)

lemma parseSections_member:
  assumes "s \<in> set (parseSections d)"
  shows "\<exists>hl body. s = block_section (hl, body) \<and> heading hl \<and> (\<forall>l\<in>set body. \<not> heading l)
           \<and> set (hl # body) \<subseteq> set (split_nl d)"
proof -
  from assms named_sections_subset
  have "s \<in> set (map block_section (blocks heading (split_nl d)))"
    unfolding parseSections_blocks by blast
  then obtain hl body where "(hl, body) \<in> set (blocks heading (split_nl d))"
      "s = block_section (hl, body)"
    by auto
  with blocks_member [of hl body heading "split_nl d"] show ?thesis by auto
qed

lemma line_is_dot:
  assumes "no_bare_terminator d" "l \<in> set (split_nl d)"
  shows "list_all is_dot l"
proof -
  from split_nl_line_chars [OF assms(2)] have "set l \<subseteq> set d - {0x0A}" .
  with assms(1) show ?thesis
    by (auto simp: no_bare_terminator_def list_all_iff is_dot_def is_line_terminator_def)
qed

lemma parseSections_reparses:
  assumes "no_bare_terminator d" "s \<in> set (parseSections d)" "header s \<noteq> []"
  shows "reparses s"
proof -
  from parseSections_member [OF assms(2)] obtain hl body where b: "s = block_section (hl, body)"
      "heading hl" "\<forall>l\<in>set body. \<not> heading l" "set (hl # body) \<subseteq> set (split_nl d)"
    by blast
  have c: "content s = trimEnd (join [0x0A] (hl # body))" "header s = line_header hl"
      "level s = line_level hl"
    by (simp_all add: b(1) block_section_def)
  have nl: "\<forall>l\<in>set (hl # body). 0x0A \<notin> set l"
    using b(4) split_nl_lines_no_nl by blast
  from split_trimEnd_join [OF heading_not_all_space [OF b(2)] nl]
  obtain hl' body' where o: "split_nl (content s) = hl' # body'" "hl' = hl \<or> hl' = trimEnd hl"
      "\<forall>l'\<in>set body'. \<exists>l\<in>set body. l' = l \<or> l' = trimEnd l"
    unfolding c(1) by blast
  from assms(3) c(2) have hne: "line_header hl \<noteq> []" by simp
  have h: "heading hl' \<and> line_header hl' = header s \<and> line_level hl' = level s"
    using o(2) b(2) c(2,3) heading_trimEnd [OF b(2) hne] by auto
  have "\<not> heading l'" if "l' \<in> set body'" for l'
  proof -
    from o(3) that obtain l where l: "l \<in> set body" "l' = l \<or> l' = trimEnd l" by blast
    with b(3) have n: "\<not> heading l" by blast
    from l(1) b(4) have "list_all is_dot l" using line_is_dot [OF assms(1)] by auto
    with n l(2) not_heading_trimEnd show ?thesis by blast
  qed
  then have "list_all (\<lambda>l. \<not> heading l) body'" by (simp add: list_all_iff)
  moreover have "trimEnd (content s) = content s" unfolding c(1) by (rule trimEnd_idem)
  ultimately show ?thesis using h o(1) by (simp add: reparses_def)
qed

lemma blocks_block:
  assumes "H hl" "\<forall>l\<in>set body. \<not> H l" "rest = [] \<or> H (hd rest)"
  shows "blocks H (hl # body @ rest) = (hl, body) # blocks H rest"
proof -
  have t: "takeWhile (\<lambda>b. \<not> H b) (body @ rest) = body @ takeWhile (\<lambda>b. \<not> H b) rest"
    using assms(2) by (intro takeWhile_append2) simp
  have d: "dropWhile (\<lambda>b. \<not> H b) (body @ rest) = dropWhile (\<lambda>b. \<not> H b) rest"
    using assms(2) by (intro dropWhile_append2) simp
  from assms(3) have "takeWhile (\<lambda>b. \<not> H b) rest = [] \<and> dropWhile (\<lambda>b. \<not> H b) rest = rest"
    by (cases rest) auto
  with t d assms(1) show ?thesis by simp
qed

lemma split_join_sections:
  "S \<noteq> [] \<Longrightarrow> split_nl (join_sections S) = concat (map (\<lambda>s. split_nl (content s) @ [[]]) S)"
proof (induction S)
  case Nil
  then show ?case by simp
next
  case (Cons s S)
  show ?case
  proof (cases S)
    case Nil
    have "split_nl (content s @ 0x0A # []) = split_nl (content s) @ split_nl []"
      by (rule split_nl_append_nl)
    with Nil show ?thesis by (simp add: join_sections_def js_newline)
  next
    case (Cons s' S')
    then have "join_sections (s # S) = content s @ 0x0A # (0x0A # join_sections S)"
      by (simp add: join_sections_def js_newline js_two_newlines)
    then have "split_nl (join_sections (s # S)) = split_nl (content s) @ split_nl (0x0A # join_sections S)"
      by (simp only: split_nl_append_nl)
    with Cons Cons.IH show ?thesis by simp
  qed
qed

lemma reparses_lines:
  assumes "reparses s"
  obtains hl body where "split_nl (content s) = hl # body" "heading hl"
    "line_header hl = header s" "line_level hl = level s" "\<forall>l\<in>set body. \<not> heading l"
    "trimEnd (content s) = content s"
  using assms by (auto simp: reparses_def list_all_iff split: list.splits)

lemma not_heading_Nil: "\<not> heading []"
  using match_heading_grammar [of "[]"] by (simp add: match_heading_Nil)

lemma blocks_join_sections:
  "\<forall>s\<in>set S. reparses s \<Longrightarrow>
     blocks heading (concat (map (\<lambda>s. split_nl (content s) @ [[]]) S))
       = map (\<lambda>s. (hd (split_nl (content s)), tl (split_nl (content s)) @ [[]])) S"
proof (induction S)
  case Nil
  show ?case by simp
next
  case (Cons s S)
  from Cons.prems have "reparses s" by simp
  then obtain hl body where l: "split_nl (content s) = hl # body" "heading hl"
      "\<forall>l\<in>set body. \<not> heading l"
    by (rule reparses_lines)
  let ?rest = "concat (map (\<lambda>s. split_nl (content s) @ [[]]) S)"
  have rest: "?rest = [] \<or> heading (hd ?rest)"
  proof (cases S)
    case Nil
    then show ?thesis by simp
  next
    case (Cons s' S')
    with Cons.prems have "reparses s'" by simp
    then obtain hl' body' where "split_nl (content s') = hl' # body'" "heading hl'"
      by (rule reparses_lines)
    with Cons show ?thesis by simp
  qed
  have "\<forall>l\<in>set (body @ [[]]). \<not> heading l" using l(3) not_heading_Nil by simp
  from blocks_block [of heading hl "body @ [[]]" ?rest, OF l(2) this rest]
  have "blocks heading (hl # (body @ [[]]) @ ?rest) = (hl, body @ [[]]) # blocks heading ?rest" .
  with Cons l(1) show ?case by simp
qed

lemma block_section_reparses:
  assumes "reparses s"
  shows "block_section (hd (split_nl (content s)), tl (split_nl (content s)) @ [[]]) = s"
proof -
  from assms obtain hl body where l: "split_nl (content s) = hl # body"
      "line_header hl = header s" "line_level hl = level s" "trimEnd (content s) = content s"
    by (rule reparses_lines)
  have "join [0x0A] ((hl # body) @ [[]]) = join [0x0A] (hl # body) @ [0x0A] @ []"
    by (intro join_snoc) simp
  also have "join [0x0A] (hl # body) = content s" using join_split_nl [of "content s"] l(1) by simp
  finally have "trimEnd (join [0x0A] (hl # body @ [[]])) = trimEnd (content s @ [0x0A])" by simp
  also have "\<dots> = trimEnd (content s)"
    by (intro trimEnd_append_space) (simp add: is_space_nl)
  finally have "trimEnd (join [0x0A] (hl # body @ [[]])) = content s" using l(4) by simp
  with l show ?thesis by (simp add: block_section_def)
qed

lemma parse_join_sections:
  assumes "\<forall>s\<in>set S. reparses s \<and> header s \<noteq> []"
  shows "parseSections (join_sections S) = S"
proof (cases "S = []")
  case True
  have "split_nl (join_sections []) = [[], []]" by (simp add: join_sections_def js_newline)
  with True show ?thesis
    by (simp add: parseSections_blocks not_heading_Nil named_sections_def)
next
  case False
  have "map block_section (blocks heading (split_nl (join_sections S))) = S"
    using assms by (simp add: split_join_sections [OF False] blocks_join_sections
        block_section_reparses map_idI)
  moreover from False assms have "header (last S) \<noteq> []" by simp
  ultimately show ?thesis using False by (simp add: parseSections_blocks named_sections_def)
qed

lemma merge_sections_member:
  "s \<in> set (merge_sections e n) \<Longrightarrow> s \<in> set (parseSections e) \<or> s \<in> set (parseSections n)"
proof -
  assume "s \<in> set (merge_sections e n)"
  then obtain x where x: "x \<in> set (parseSections n)"
      "s = select_section (sections_map (parseSections e)) x"
    by (auto simp: merge_sections_eq)
  with select_section_member [of "parseSections e" x] show ?thesis by metis
qed

lemma parse_merge:
  assumes "no_bare_terminator e" "no_bare_terminator n"
    "list_all (\<lambda>s. header s \<noteq> []) (parseSections n)"
  shows "parseSections (merge e n) = merge_sections e n"
proof -
  have "reparses s \<and> header s \<noteq> []" if "s \<in> set (merge_sections e n)" for s
  proof -
    from that have "header s \<in> set (map header (merge_sections e n))" by simp
    then have "header s \<in> set (map header (parseSections n))"
      by (simp only: merge_sections_headers)
    with assms(3) have h: "header s \<noteq> []" by (auto simp: list_all_iff)
    from merge_sections_member [OF that] assms(1,2) h show ?thesis
      using parseSections_reparses by blast
  qed
  then show ?thesis unfolding merge_def by (intro parse_join_sections) blast
qed

section \<open>Lemmas about extractPreservedData\<close>

lemma find_filter: "find P xs = (case filter P xs of [] \<Rightarrow> None | x # _ \<Rightarrow> Some x)"
  by (induction xs) simp_all


lemma match_checkbox_iff:
  "match_checkbox s = (take 5 s = js ''- [ ]'' \<or> take 5 s = js ''- [x]'')"
proof (cases s rule: match_checkbox.cases)
  case (1 a b c d e rest)
  then show ?thesis by (auto simp: js_def)
qed (simp_all add: js_def)

lemma trim_last: "trim l \<noteq> [] \<Longrightarrow> \<not> is_space (last (trim l))"
  unfolding trim_def by (rule trimEnd_last)

lemma drop_last_nonspace:
  assumes "s \<noteq> [] \<longrightarrow> \<not> is_space (last s)" "drop n s \<noteq> []"
  shows "\<not> list_all is_space (drop n s)"
proof -
  from assms(2) have "s \<noteq> []" by auto
  with assms(2) have "last (drop n s) = last s" by simp
  with assms \<open>s \<noteq> []\<close> have "\<not> is_space (last (drop n s))" by simp
  moreover have "last (drop n s) \<in> set (drop n s)" using assms(2) by (rule last_in_set)
  ultimately show ?thesis by (auto simp: list_all_iff)
qed

lemma ws_then_text_first:
  "text_to_end (dropWhile is_space r) \<Longrightarrow>
     ws_then_text 0 (length (takeWhile is_space r)) r = Some (dropWhile is_space r)"
proof -
  assume t: "text_to_end (dropWhile is_space r)"
  have d: "drop (length (takeWhile is_space r)) r = dropWhile is_space r"
    by (metis append_eq_conv_conj takeWhile_dropWhile_id)
  show ?thesis
  proof (cases "length (takeWhile is_space r)")
    case 0
    with t d show ?thesis by simp
  next
    case (Suc j)
    with t d show ?thesis by simp
  qed
qed

lemma text_to_end_drop:
  "text_to_end (drop i r) \<Longrightarrow> i \<le> j \<Longrightarrow> drop j r \<noteq> [] \<Longrightarrow> text_to_end (drop j r)"
proof -
  assume a: "text_to_end (drop i r)" "i \<le> j" "drop j r \<noteq> []"
  then have "drop j r = drop (j - i) (drop i r)" by simp
  then have "set (drop j r) \<subseteq> set (drop i r)" by (metis set_drop_subset)
  with a show ?thesis by (auto simp: text_to_end_def list_all_iff)
qed

lemma match_todo_trimmed:
  assumes "s \<noteq> [] \<longrightarrow> \<not> is_space (last s)" "match_checkbox s"
  shows "(case match_todo s of Some m \<Rightarrow> trim m | None \<Rightarrow> []) =
     (if text_to_end (dropWhile is_space (drop 5 s)) then dropWhile is_space (drop 5 s) else [])"
proof (cases "text_to_end (dropWhile is_space (drop 5 s))")
  case True
  let ?t = "dropWhile is_space (drop 5 s)"
  from True have ne: "?t \<noteq> []" by (simp add: text_to_end_def)
  then have hd: "\<not> is_space (hd ?t)" by (rule hd_dropWhile)
  have "?t = drop (length (takeWhile is_space (drop 5 s))) (drop 5 s)"
    by (metis append_eq_conv_conj takeWhile_dropWhile_id)
  then have t: "?t = drop (length (takeWhile is_space (drop 5 s)) + 5) s" by simp
  with ne have "s \<noteq> []" by auto
  with ne t have "last ?t = last s" by (metis last_drop drop_eq_Nil not_le)
  with assms(1) \<open>s \<noteq> []\<close> have "\<not> is_space (last ?t)" by simp
  with ne hd have "trim ?t = ?t" by (rule trim_id)
  with True assms(2) show ?thesis by (simp add: match_todo_def ws_then_text_first)
next
  case False
  let ?r = "drop 5 s"
  let ?m = "length (takeWhile is_space ?r)"
  have d: "drop ?m ?r = dropWhile is_space ?r"
    by (metis append_eq_conv_conj takeWhile_dropWhile_id)
  have "ws_then_text 0 ?m ?r = None"
  proof (rule ccontr)
    assume "ws_then_text 0 ?m ?r \<noteq> None"
    then obtain t where "ws_then_text 0 ?m ?r = Some t" by auto
    then obtain i where i: "i \<le> ?m" "t = drop i ?r" "text_to_end t"
      using ws_then_text_Some by blast
    from i have "drop i ?r \<noteq> []" by (simp add: text_to_end_def)
    then have ns: "\<not> list_all is_space (drop i ?r)"
      using drop_last_nonspace [OF assms(1), of "i + 5"] by (simp add: add.commute)
    have sp: "drop i ?r = drop i (takeWhile is_space ?r) @ dropWhile is_space ?r"
      using i(1) by (metis drop_append takeWhile_dropWhile_id diff_is_0_eq drop_0)
    have al: "list_all is_space (drop i (takeWhile is_space ?r))"
      by (simp add: list_all_iff) (meson in_set_dropD set_takeWhileD)
    have "dropWhile is_space ?r \<noteq> []"
    proof
      assume "dropWhile is_space ?r = []"
      with sp have "drop i ?r = drop i (takeWhile is_space ?r)" by simp
      with al ns show False by metis
    qed
    with i d have "text_to_end (dropWhile is_space ?r)"
      using text_to_end_drop [of i ?r ?m] by simp
    with False show False by simp
  qed
  with False assms(2) show ?thesis by (simp add: match_todo_def)
qed

lemma todo_line:
  "(if match_checkbox (trim l)
    then (case match_todo (trim l) of Some m \<Rightarrow> trim m | None \<Rightarrow> []) else []) =
   (case checkbox_text l of Some t \<Rightarrow> t | None \<Rightarrow> [])"
  using match_todo_trimmed [of "trim l"] trim_last [of l]
  by (auto simp: checkbox_text_def Let_def match_checkbox_iff)

lemma checkbox_text_nonempty: "checkbox_text l = Some t \<Longrightarrow> t \<noteq> []"
  by (auto simp: checkbox_text_def Let_def text_to_end_def split: if_splits)

lemma todos_map_filter:
  "filter (\<lambda>t. t \<noteq> [])
     (map (\<lambda>l. case match_todo (trim l) of Some m \<Rightarrow> trim m | None \<Rightarrow> [])
        (filter (\<lambda>l. match_checkbox (trim l)) ls))
   = List.map_filter checkbox_text ls"
proof (induction ls)
  case Nil
  show ?case by (simp add: List.map_filter_simps)
next
  case (Cons l ls)
  show ?case
  proof (cases "checkbox_text l")
    case None
    with todo_line [of l] Cons show ?thesis
      by (auto simp: List.map_filter_simps split: if_splits)
  next
    case (Some t)
    with todo_line [of l] checkbox_text_nonempty [of l t] Cons show ?thesis
      by (auto simp: List.map_filter_simps split: if_splits)
  qed
qed

lemma checkbox_text_trimmed: "checkbox_text l = Some t \<Longrightarrow> trim t = t"
proof -
  assume a: "checkbox_text l = Some t"
  let ?s = "trim l"
  from a have t: "t = dropWhile is_space (drop 5 ?s)" and ne: "t \<noteq> []"
    by (auto simp: checkbox_text_def Let_def text_to_end_def split: if_splits)
  from ne have hd: "\<not> is_space (hd t)" unfolding t by (rule hd_dropWhile)
  have "t = drop (length (takeWhile is_space (drop 5 ?s))) (drop 5 ?s)"
    unfolding t by (metis append_eq_conv_conj takeWhile_dropWhile_id)
  then have d: "t = drop (length (takeWhile is_space (drop 5 ?s)) + 5) ?s" by simp
  with ne have s: "?s \<noteq> []" by auto
  from ne d have "last t = last ?s" by (metis last_drop drop_eq_Nil not_le)
  with trim_last [OF s] have "\<not> is_space (last t)" by simp
  with ne hd show ?thesis by (rule trim_id)
qed

section \<open>Lemmas about updateTimestamp\<close>

lemma length_banner_suffix: "length banner_suffix = 8"
  by (simp add: banner_suffix_def js_def)

lemma length_banner_prefix: "length banner_prefix = 41"
  by (simp add: banner_prefix_def js_def)

lemma startsWith_length: "startsWith s p \<Longrightarrow> length p \<le> length s"
proof -
  assume "startsWith s p"
  then have "length (take (length p) s) = length p" by (simp add: startsWith_def)
  then show ?thesis by simp
qed

lemma startsWith_split: "startsWith s p \<Longrightarrow> s = p @ drop (length p) s"
  unfolding startsWith_def by (metis append_take_drop_id)

lemma not_startsWith_Nil_suffix: "\<not> startsWith [] banner_suffix"
  by (simp add: startsWith_def banner_suffix_def js_def)

lemma not_startsWith_Nil_prefix: "\<not> startsWith [] banner_prefix"
  by (simp add: startsWith_def banner_prefix_def js_def)

lemma lazy_date_Some:
  "lazy_date acc s = Some (d, a) \<Longrightarrow>
     \<exists>k. 1 \<le> k \<and> d = acc @ take k s \<and> list_all is_dot (take k s)
        \<and> startsWith (drop k s) banner_suffix \<and> a = drop (k + length banner_suffix) s
        \<and> (\<forall>k'. 1 \<le> k' \<and> k' < k \<longrightarrow> \<not> startsWith (drop k' s) banner_suffix)"
proof (induction s arbitrary: acc)
  case Nil
  then show ?case by simp
next
  case (Cons c cs)
  from Cons.prems have dot: "is_dot c" by (auto simp: is_dot_def split: if_splits)
  show ?case
  proof (cases "startsWith cs banner_suffix")
    case True
    with Cons.prems dot have "d = acc @ [c]" "a = drop (length banner_suffix) cs"
      by (auto simp: is_dot_def split: if_splits)
    with True dot show ?thesis by (intro exI [of _ 1]) simp
  next
    case False
    with Cons.prems dot have "lazy_date (acc @ [c]) cs = Some (d, a)"
      by (auto simp: is_dot_def split: if_splits)
    from Cons.IH [OF this] obtain k where k: "1 \<le> k" "d = (acc @ [c]) @ take k cs"
        "list_all is_dot (take k cs)" "startsWith (drop k cs) banner_suffix"
        "a = drop (k + length banner_suffix) cs"
        "\<forall>k'. 1 \<le> k' \<and> k' < k \<longrightarrow> \<not> startsWith (drop k' cs) banner_suffix"
      by blast
    have "\<not> startsWith (drop k' (c # cs)) banner_suffix" if "1 \<le> k'" "k' < Suc k" for k'
    proof (cases k')
      case 0
      with that show ?thesis by simp
    next
      case (Suc j)
      with that k(6) False show ?thesis by (cases j) auto
    qed
    with k dot show ?thesis by (intro exI [of _ "Suc k"]) simp
  qed
qed

lemma lazy_date_None:
  "lazy_date acc s = None \<Longrightarrow> 1 \<le> k \<Longrightarrow> list_all is_dot (take k s) \<Longrightarrow>
     \<not> startsWith (drop k s) banner_suffix"
proof (induction s arbitrary: acc k)
  case Nil
  then show ?case by (simp add: not_startsWith_Nil_suffix)
next
  case (Cons c cs)
  from Cons.prems obtain j where j: "k = Suc j" by (cases k) auto
  with Cons.prems have dot: "is_dot c" "list_all is_dot (take j cs)" by simp_all
  with Cons.prems have no: "\<not> startsWith cs banner_suffix"
    and rec: "lazy_date (acc @ [c]) cs = None"
    by (auto simp: is_dot_def split: if_splits)
  show ?case
  proof (cases j)
    case 0
    with j no show ?thesis by simp
  next
    case (Suc j')
    with Cons.IH [OF rec, of j] dot j show ?thesis by simp
  qed
qed

lemma banner_at_bound:
  "banner_at s i k \<Longrightarrow> i + length banner_prefix + k + length banner_suffix \<le> length s"
proof -
  assume "banner_at s i k"
  then have "startsWith (drop (i + length banner_prefix + k) s) banner_suffix"
    by (simp add: banner_at_def)
  from startsWith_length [OF this] show ?thesis
    by (simp add: length_banner_suffix)
qed

lemma banner_at_drop: "banner_at (drop i s) 0 k = banner_at s i k"
  by (simp add: banner_at_def ac_simps)

lemma banner_at_Cons: "banner_at (c # cs) (Suc i) k = banner_at cs i k"
  by (simp add: banner_at_def)

lemma match_banner_here_Some:
  assumes "match_banner_here s = Some (d, a)"
  shows "\<exists>k. banner_at s 0 k \<and> (\<forall>k'. 1 \<le> k' \<and> k' < k \<longrightarrow> \<not> banner_at s 0 k')
           \<and> d = take k (drop (length banner_prefix) s)
           \<and> a = drop (length banner_prefix + k + length banner_suffix) s"
proof -
  from assms have p: "startsWith s banner_prefix"
    and l: "lazy_date [] (drop (length banner_prefix) s) = Some (d, a)"
    by (auto simp: match_banner_here_def split: if_splits)
  from lazy_date_Some [OF l] obtain k where k: "1 \<le> k"
      "d = take k (drop (length banner_prefix) s)"
      "list_all is_dot (take k (drop (length banner_prefix) s))"
      "startsWith (drop k (drop (length banner_prefix) s)) banner_suffix"
      "a = drop (k + length banner_suffix) (drop (length banner_prefix) s)"
      "\<forall>k'. 1 \<le> k' \<and> k' < k \<longrightarrow> \<not> startsWith (drop k' (drop (length banner_prefix) s)) banner_suffix"
    by auto
  from p k have "banner_at s 0 k" by (simp add: banner_at_def add.commute)
  moreover from k(6) have "\<forall>k'. 1 \<le> k' \<and> k' < k \<longrightarrow> \<not> banner_at s 0 k'"
    by (simp add: banner_at_def add.commute)
  moreover from k(5) have "a = drop (length banner_prefix + k + length banner_suffix) s"
    by (simp add: add.commute add.left_commute)
  ultimately show ?thesis using k(2) by blast
qed

lemma match_banner_here_None: "match_banner_here s = None \<Longrightarrow> \<not> banner_at s 0 k"
proof
  assume n: "match_banner_here s = None" and b: "banner_at s 0 k"
  from b have p: "startsWith s banner_prefix" by (simp add: banner_at_def)
  with n have "lazy_date [] (drop (length banner_prefix) s) = None"
    by (simp add: match_banner_here_def)
  from lazy_date_None [OF this, of k] b show False
    by (simp add: banner_at_def add.commute)
qed

lemma find_banner_None: "find_banner pre s = None \<Longrightarrow> \<not> banner_at s i k"
proof (induction s arbitrary: pre i)
  case Nil
  show ?case by (simp add: banner_at_def not_startsWith_Nil_prefix)
next
  case (Cons c cs)
  from Cons.prems have h: "match_banner_here (c # cs) = None"
    and r: "find_banner (pre @ [c]) cs = None"
    by (auto split: option.splits)
  show ?case
  proof (cases i)
    case 0
    with match_banner_here_None [OF h] show ?thesis by simp
  next
    case (Suc j)
    with Cons.IH [OF r] show ?thesis by (simp add: banner_at_Cons)
  qed
qed

lemma find_banner_Some:
  "find_banner pre s = Some (b, d, a) \<Longrightarrow>
     \<exists>i k. banner_at s i k \<and> (\<forall>i' k'. i' < i \<longrightarrow> \<not> banner_at s i' k')
        \<and> (\<forall>k'. 1 \<le> k' \<and> k' < k \<longrightarrow> \<not> banner_at s i k')
        \<and> b = pre @ take i s \<and> d = take k (drop (i + length banner_prefix) s)
        \<and> a = drop (i + length banner_prefix + k + length banner_suffix) s"
proof (induction s arbitrary: pre)
  case Nil
  then show ?case by simp
next
  case (Cons c cs)
  show ?case
  proof (cases "match_banner_here (c # cs)")
    case (Some da)
    with Cons.prems have m: "match_banner_here (c # cs) = Some (d, a)" and b: "b = pre"
      by (auto split: prod.splits)
    from match_banner_here_Some [OF m] obtain k where k: "banner_at (c # cs) 0 k"
        "\<forall>k'. 1 \<le> k' \<and> k' < k \<longrightarrow> \<not> banner_at (c # cs) 0 k'"
        "d = take k (drop (length banner_prefix) (c # cs))"
        "a = drop (length banner_prefix + k + length banner_suffix) (c # cs)"
      by blast
    with b show ?thesis
      by (intro exI [of _ 0] exI [of _ k]) simp
  next
    case None
    with Cons.prems have "find_banner (pre @ [c]) cs = Some (b, d, a)" by simp
    from Cons.IH [OF this] obtain i k where ik: "banner_at cs i k"
        "\<forall>i' k'. i' < i \<longrightarrow> \<not> banner_at cs i' k'"
        "\<forall>k'. 1 \<le> k' \<and> k' < k \<longrightarrow> \<not> banner_at cs i k'"
        "b = (pre @ [c]) @ take i cs" "d = take k (drop (i + length banner_prefix) cs)"
        "a = drop (i + length banner_prefix + k + length banner_suffix) cs"
      by blast
    have "\<not> banner_at (c # cs) i' k'" if "i' < Suc i" for i' k'
    proof (cases i')
      case 0
      with match_banner_here_None [OF None] show ?thesis by simp
    next
      case (Suc j)
      with that ik(2) show ?thesis by (simp add: banner_at_Cons)
    qed
    with ik show ?thesis
      by (intro exI [of _ "Suc i"] exI [of _ k]) (simp add: banner_at_Cons)
  qed
qed

lemma get_substitution_plain:
  "0x24 \<notin> set tpl \<Longrightarrow> get_substitution m b a tpl = tpl"
  by (induction m b a tpl rule: get_substitution.induct) auto

lemma no_dollar_banner: "0x24 \<notin> set banner_prefix" "0x24 \<notin> set banner_suffix"
  by (simp_all add: banner_prefix_def banner_suffix_def js_def)

lemma list_all_upt: "list_all P [a..<b] = (\<forall>n. a \<le> n \<and> n < b \<longrightarrow> P n)"
  by (auto simp: list_all_iff)

lemma list_ex_upt: "list_ex P [a..<b] = (\<exists>n. a \<le> n \<and> n < b \<and> P n)"
  by (auto simp: list_ex_iff)

lemma banner_at_ranges: "banner_at s i k \<Longrightarrow> i < Suc (length s) \<and> 1 \<le> k \<and> k < Suc (length s)"
  using banner_at_bound [of s i k] by (simp add: banner_at_def)

lemma banner_matches_iff: "banner_matches s = (\<exists>i k. banner_at s i k)"
proof
  assume "banner_matches s"
  then show "\<exists>i k. banner_at s i k"
    unfolding banner_matches_def list_ex_upt by blast
next
  assume "\<exists>i k. banner_at s i k"
  then obtain i k where b: "banner_at s i k" by blast
  from banner_at_ranges [OF b] b
  have "0 \<le> i \<and> i < Suc (length s) \<and> (\<exists>n. 1 \<le> n \<and> n < Suc (length s) \<and> banner_at s i n)"
    by blast
  then show "banner_matches s"
    unfolding banner_matches_def list_ex_upt by (rule exI)
qed

lemma first_banner_iff:
  "first_banner s i k =
     (banner_at s i k \<and> (\<forall>i' k'. i' < i \<longrightarrow> \<not> banner_at s i' k')
      \<and> (\<forall>k'. 1 \<le> k' \<and> k' < k \<longrightarrow> \<not> banner_at s i k'))"
proof
  assume "first_banner s i k"
  then have b: "banner_at s i k"
    and e: "\<forall>i'. 0 \<le> i' \<and> i' < i \<longrightarrow>
              (\<forall>k'. 1 \<le> k' \<and> k' < Suc (length s) \<longrightarrow> \<not> banner_at s i' k')"
    and l: "\<forall>k'. 1 \<le> k' \<and> k' < k \<longrightarrow> \<not> banner_at s i k'"
    unfolding first_banner_def list_all_upt by blast+
  have "\<not> banner_at s i' k'" if "i' < i" for i' k'
  proof
    assume c: "banner_at s i' k'"
    from banner_at_ranges [OF c] have "1 \<le> k' \<and> k' < Suc (length s)" by blast
    with e that c show False by blast
  qed
  with b l show "banner_at s i k \<and> (\<forall>i' k'. i' < i \<longrightarrow> \<not> banner_at s i' k')
      \<and> (\<forall>k'. 1 \<le> k' \<and> k' < k \<longrightarrow> \<not> banner_at s i k')"
    by blast
next
  assume "banner_at s i k \<and> (\<forall>i' k'. i' < i \<longrightarrow> \<not> banner_at s i' k')
      \<and> (\<forall>k'. 1 \<le> k' \<and> k' < k \<longrightarrow> \<not> banner_at s i k')"
  then show "first_banner s i k"
    unfolding first_banner_def list_all_upt by blast
qed

lemma find_banner_first:
  assumes "first_banner s i k"
  shows "find_banner [] s = Some (take i s, take k (drop (i + length banner_prefix) s),
     drop (i + length banner_prefix + k + length banner_suffix) s)"
proof -
  from assms have f1: "banner_at s i k"
    and f2: "\<forall>i' k'. i' < i \<longrightarrow> \<not> banner_at s i' k'"
    and f3: "\<forall>k'. 1 \<le> k' \<and> k' < k \<longrightarrow> \<not> banner_at s i k'"
    unfolding first_banner_iff by simp_all
  from f1 have "find_banner [] s \<noteq> None" using find_banner_None [of "[]" s i k] by blast
  then obtain b d a where fb: "find_banner [] s = Some (b, d, a)" by auto
  from find_banner_Some [OF fb] obtain i1 k1 where g: "banner_at s i1 k1 \<and> (\<forall>i' k'. i' < i1 \<longrightarrow> \<not> banner_at s i' k')
        \<and> (\<forall>k'. 1 \<le> k' \<and> k' < k1 \<longrightarrow> \<not> banner_at s i1 k')
        \<and> b = [] @ take i1 s \<and> d = take k1 (drop (i1 + length banner_prefix) s)
        \<and> a = drop (i1 + length banner_prefix + k1 + length banner_suffix) s"
    by blast
  then have g1: "banner_at s i1 k1"
    and g2: "\<forall>i' k'. i' < i1 \<longrightarrow> \<not> banner_at s i' k'"
    and g3: "\<forall>k'. 1 \<le> k' \<and> k' < k1 \<longrightarrow> \<not> banner_at s i1 k'"
    and g4: "b = take i1 s" "d = take k1 (drop (i1 + length banner_prefix) s)"
      "a = drop (i1 + length banner_prefix + k1 + length banner_suffix) s"
    by simp_all
  have "\<not> i < i1" using f1 g2 by blast
  moreover have "\<not> i1 < i" using f2 g1 by blast
  ultimately have i: "i1 = i" by simp
  have k1: "1 \<le> k" "1 \<le> k1" using f1 g1 by (simp_all add: banner_at_def)
  have "\<not> k < k1" using f1 g3 k1(1) unfolding i by blast
  moreover have "\<not> k1 < k" using f3 g1 k1(2) unfolding i by blast
  ultimately have "k1 = k" by simp
  with i g4 fb show ?thesis by simp
qed

lemma find_banner_first_banner:
  assumes "find_banner [] s = Some (b, d, a)"
  shows "first_banner s (length b) (length d)"
proof -
  from find_banner_Some [OF assms] obtain i k where g: "banner_at s i k
      \<and> (\<forall>i' k'. i' < i \<longrightarrow> \<not> banner_at s i' k')
      \<and> (\<forall>k'. 1 \<le> k' \<and> k' < k \<longrightarrow> \<not> banner_at s i k')
      \<and> b = [] @ take i s \<and> d = take k (drop (i + length banner_prefix) s)"
    by blast
  then have "banner_at s i k" by blast
  from banner_at_bound [OF this] g have "length b = i" "length d = k" by simp_all
  with g show ?thesis by (simp add: first_banner_iff)
qed

section \<open>No operation fails\<close>

lemma parse_line_checked_eq: "parse_line_checked st (Some line) = Inr (parse_line st line)"
proof (cases "match_heading line")
  case None
  then show ?thesis
    by (simp add: parse_line_checked_def deref_def exec_heading_def parse_line_def)
next
  case (Some a)
  then obtain lv t where m: "match_heading line = Some (lv, t)" by (cases a) auto
  from match_heading_SomeD [OF m] obtain h w where "line = h @ w @ t" "length h = lv" by blast
  then have "length (take lv line) = lv" by simp
  with m show ?thesis
    by (simp add: parse_line_checked_def deref_def exec_heading_def parse_line_def
        element_at_def)
qed

lemma parse_loop_eq: "parse_loop lines i st = Inr (foldl parse_line st (drop i lines))"
proof (induction lines i st rule: parse_loop.induct)
  case (1 lines i st)
  show ?case
  proof (cases "i < length lines")
    case False
    then show ?thesis by (subst parse_loop.simps) simp
  next
    case True
    then have e: "parse_line_checked st (element_at lines i) = Inr (parse_line st (lines ! i))"
      by (simp add: element_at_def parse_line_checked_eq)
    from True have d: "drop i lines = lines ! i # drop (Suc i) lines"
      by (rule Cons_nth_drop_Suc [symmetric])
    from "1.IH" [OF True e] True e show ?thesis
      by (subst parse_loop.simps) (simp add: d)
  qed
qed

lemma parseSections_checked_eq: "parseSections_checked md = Inr (parseSections md)"
  by (simp add: parseSections_checked_def parse_loop_eq parseSections_def Let_def)

lemma todo_text_checked_eq:
  "todo_text_checked l = Inr (case match_todo (trim l) of Some m \<Rightarrow> trim m | None \<Rightarrow> [])"
proof (cases "match_todo (trim l)")
  case None
  then show ?thesis by (simp add: todo_text_checked_def exec_todo_def)
next
  case (Some t)
  then show ?thesis
    by (simp add: todo_text_checked_def exec_todo_def deref_def element_at_def)
qed

lemma map_checked_eq: "\<forall>x\<in>set xs. f x = Inr (g x) \<Longrightarrow> map_checked f xs = Inr (map g xs)"
  by (induction xs) simp_all

lemma extract_todos_checked_eq: "extract_todos_checked sec = Inr (extract_todos sec)"
proof (cases sec)
  case None
  then show ?thesis by (simp add: extract_todos_checked_def extract_todos_def)
next
  case (Some s)
  have "map_checked todo_text_checked (filter (\<lambda>l. match_checkbox (trim l)) (split_nl (content s)))
      = Inr (map (\<lambda>l. case match_todo (trim l) of Some m \<Rightarrow> trim m | None \<Rightarrow> [])
               (filter (\<lambda>l. match_checkbox (trim l)) (split_nl (content s))))"
    by (rule map_checked_eq) (simp add: todo_text_checked_eq)
  with Some show ?thesis by (simp add: extract_todos_checked_def extract_todos_def)
qed

lemma extractPreservedData_checked_eq:
  "extractPreservedData_checked md = Inr (extractPreservedData md)"
  by (simp add: extractPreservedData_checked_def parseSections_checked_eq
      extract_todos_checked_eq extractPreservedData_def Let_def)

lemma merge_checked_eq: "merge_checked e n = Inr (merge e n)"
  by (simp add: merge_checked_def parseSections_checked_eq merge_def merge_sections_def Let_def)

lemma updateTimestamp_no_banner: "\<not> banner_matches s \<Longrightarrow> updateTimestamp s date = s"
proof -
  assume "\<not> banner_matches s"
  then have nb: "\<And>i k. \<not> banner_at s i k" by (simp add: banner_matches_iff)
  have "find_banner [] s = None"
  proof (cases "find_banner [] s")
    case None
    then show ?thesis .
  next
    case (Some bda)
    then obtain b d a where "find_banner [] s = Some (b, d, a)" by (cases bda) auto
    from find_banner_Some [OF this] nb show ?thesis by blast
  qed
  then show ?thesis by (simp add: updateTimestamp_def)
qed

section \<open>Claims about merge\<close>

text \<open>
  C1. The claim: a section of the existing document whose header is no header of the new
  document is appended, unchanged, after the sections taken from the new document. The
  comment of line 172 says so, but the guard of line 178 never holds: at an existing
  document with the one section \<open>Custom\<close> and a new document with the one section
  \<open>Tech Stack\<close>, the result has the new section only.
\<close>

theorem merge_drops_custom_section:
  "merge (js ''## Custom\<newline>mine'') (js ''## Tech Stack\<newline>TS'')
     = js ''## Tech Stack\<newline>TS\<newline>''"
  by code_simp

text \<open>
  C10. Merging any existing document with the empty new document gives the string that
  holds one line feed: nothing of the existing document is in the result.
\<close>

theorem merge_empty_new_discards_existing: "merge e [] = js ''\<newline>''"
  by (simp add: merge_def merge_sections_eq parseSections_empty join_sections_def)

text \<open>
  C2. The list of sections that \<open>merge\<close> joins has one section for each section of the
  new document, in the same order. Where the header of the new section is in the
  preservation policy and the existing document has a section with that header, it is
  the existing document's section with that header (the last one, when there are
  several), whole; where the existing document has none, it is the new section. The
  result of \<open>merge\<close> is the join of the contents of this list.
\<close>

theorem preserved_sections_from_existing:
  "length (merge_sections e n) = length (parseSections n)
   \<and> (\<forall>i. i < length (parseSections n) \<and> header (parseSections n ! i) \<in> set PRESERVED_SECTIONS \<longrightarrow>
        merge_sections e n ! i =
          (if list_ex (\<lambda>s. header s = header (parseSections n ! i)) (parseSections e)
           then last (filter (\<lambda>s. header s = header (parseSections n ! i)) (parseSections e))
           else parseSections n ! i))
   \<and> merge e n = join (js ''\<newline>\<newline>'') (map content (merge_sections e n)) @ js ''\<newline>''"
  by (simp add: merge_sections_eq select_section_def sections_map_last merge_def join_sections_def)

theorem preserved_sections_from_existing_witness:
  "merge_sections (js ''## About This Project\<newline>Hello\<newline>## Tech Stack\<newline>JS'')
       (js ''## About This Project\<newline>Goodbye\<newline>## Tech Stack\<newline>TS\<newline>## Pending TODOs\<newline>- [ ] x'') ! 0
     = \<lparr>header = js ''About This Project'', level = 2, content = js ''## About This Project\<newline>Hello''\<rparr>
   \<and> merge_sections (js ''## About This Project\<newline>Hello\<newline>## Tech Stack\<newline>JS'')
       (js ''## About This Project\<newline>Goodbye\<newline>## Tech Stack\<newline>TS\<newline>## Pending TODOs\<newline>- [ ] x'') ! 2
     = \<lparr>header = js ''Pending TODOs'', level = 2, content = js ''## Pending TODOs\<newline>- [ ] x''\<rparr>
   \<and> merge (js ''## About This Project\<newline>Hello\<newline>## Tech Stack\<newline>JS'')
       (js ''## About This Project\<newline>Goodbye\<newline>## Tech Stack\<newline>TS\<newline>## Pending TODOs\<newline>- [ ] x'')
     = js ''## About This Project\<newline>Hello\<newline>\<newline>## Tech Stack\<newline>TS\<newline>\<newline>## Pending TODOs\<newline>- [ ] x\<newline>''"
proof -
  let ?e = "js ''## About This Project\<newline>Hello\<newline>## Tech Stack\<newline>JS''"
  let ?n = "js ''## About This Project\<newline>Goodbye\<newline>## Tech Stack\<newline>TS\<newline>## Pending TODOs\<newline>- [ ] x''"
  have pe: "parseSections ?e =
     [\<lparr>header = js ''About This Project'', level = 2, content = js ''## About This Project\<newline>Hello''\<rparr>,
      \<lparr>header = js ''Tech Stack'', level = 2, content = js ''## Tech Stack\<newline>JS''\<rparr>]"
    by code_simp
  have pn: "parseSections ?n =
     [\<lparr>header = js ''About This Project'', level = 2, content = js ''## About This Project\<newline>Goodbye''\<rparr>,
      \<lparr>header = js ''Tech Stack'', level = 2, content = js ''## Tech Stack\<newline>TS''\<rparr>,
      \<lparr>header = js ''Pending TODOs'', level = 2, content = js ''## Pending TODOs\<newline>- [ ] x''\<rparr>]"
    by code_simp
  have h0: "0 < length (parseSections ?n) \<and> header (parseSections ?n ! 0) \<in> set PRESERVED_SECTIONS"
    unfolding pn by code_simp
  have h2: "2 < length (parseSections ?n) \<and> header (parseSections ?n ! 2) \<in> set PRESERVED_SECTIONS"
    unfolding pn by code_simp
  note t = preserved_sections_from_existing [of ?e ?n]
  have s0: "merge_sections ?e ?n ! 0 =
     \<lparr>header = js ''About This Project'', level = 2, content = js ''## About This Project\<newline>Hello''\<rparr>"
    using t [THEN conjunct2, THEN conjunct1, rule_format, OF h0] unfolding pe pn by (simp add: js_def)
  have s2: "merge_sections ?e ?n ! 2 =
     \<lparr>header = js ''Pending TODOs'', level = 2, content = js ''## Pending TODOs\<newline>- [ ] x''\<rparr>"
    using t [THEN conjunct2, THEN conjunct1, rule_format, OF h2] unfolding pe pn by (simp add: js_def)
  have m: "merge ?e ?n = js ''## About This Project\<newline>Hello\<newline>\<newline>## Tech Stack\<newline>TS\<newline>\<newline>## Pending TODOs\<newline>- [ ] x\<newline>''"
    by code_simp
  from s0 s2 m show ?thesis by blast
qed

section \<open>Claims about the merged document\<close>

text \<open>
  C7, as amended. The result of \<open>merge\<close> is the contents of the sections it selected,
  joined with one blank line between two sections and one line feed at the end. When
  neither document has a CR, LS or PS character and no section of the new document has
  an empty header, parsing the result gives exactly the selected sections, and joining
  the parsed sections again gives the result.
\<close>

theorem merge_output_parses_back:
  "merge e n = join (js ''\<newline>\<newline>'') (map content (merge_sections e n)) @ js ''\<newline>''
   \<and> (no_bare_terminator e \<and> no_bare_terminator n
        \<and> list_all (\<lambda>s. header s \<noteq> []) (parseSections n) \<longrightarrow>
      parseSections (merge e n) = merge_sections e n
      \<and> join (js ''\<newline>\<newline>'') (map content (parseSections (merge e n))) @ js ''\<newline>'' = merge e n)"
proof (intro conjI impI)
  show m: "merge e n = join (js ''\<newline>\<newline>'') (map content (merge_sections e n)) @ js ''\<newline>''"
    by (simp add: merge_def join_sections_def)
  assume "no_bare_terminator e \<and> no_bare_terminator n
        \<and> list_all (\<lambda>s. header s \<noteq> []) (parseSections n)"
  then show p: "parseSections (merge e n) = merge_sections e n" by (simp add: parse_merge)
  show "join (js ''\<newline>\<newline>'') (map content (parseSections (merge e n))) @ js ''\<newline>'' = merge e n"
    unfolding p by (rule m [symmetric])
qed

theorem merge_output_parses_back_witness:
  "parseSections (merge (js ''## About This Project\<newline>Hello\<newline>\<newline>## Mine\<newline>x'')
       (js ''# Title\<newline>> banner\<newline>\<newline>## About This Project\<newline>Goodbye\<newline>\<newline>## Tech Stack\<newline>- TS\<newline>''))
     = [\<lparr>header = js ''Title'', level = 1, content = js ''# Title\<newline>> banner''\<rparr>,
        \<lparr>header = js ''About This Project'', level = 2,
           content = js ''## About This Project\<newline>Hello''\<rparr>,
        \<lparr>header = js ''Tech Stack'', level = 2, content = js ''## Tech Stack\<newline>- TS''\<rparr>]
   \<and> join (js ''\<newline>\<newline>'') (map content (parseSections
        (merge (js ''## About This Project\<newline>Hello\<newline>\<newline>## Mine\<newline>x'')
          (js ''# Title\<newline>> banner\<newline>\<newline>## About This Project\<newline>Goodbye\<newline>\<newline>## Tech Stack\<newline>- TS\<newline>''))))
       @ js ''\<newline>''
     = merge (js ''## About This Project\<newline>Hello\<newline>\<newline>## Mine\<newline>x'')
         (js ''# Title\<newline>> banner\<newline>\<newline>## About This Project\<newline>Goodbye\<newline>\<newline>## Tech Stack\<newline>- TS\<newline>'')"
proof -
  let ?e = "js ''## About This Project\<newline>Hello\<newline>\<newline>## Mine\<newline>x''"
  let ?n = "js ''# Title\<newline>> banner\<newline>\<newline>## About This Project\<newline>Goodbye\<newline>\<newline>## Tech Stack\<newline>- TS\<newline>''"
  have h: "no_bare_terminator ?e \<and> no_bare_terminator ?n
      \<and> list_all (\<lambda>s. header s \<noteq> []) (parseSections ?n)"
    by code_simp
  have v: "merge_sections ?e ?n
     = [\<lparr>header = js ''Title'', level = 1, content = js ''# Title\<newline>> banner''\<rparr>,
        \<lparr>header = js ''About This Project'', level = 2,
           content = js ''## About This Project\<newline>Hello''\<rparr>,
        \<lparr>header = js ''Tech Stack'', level = 2, content = js ''## Tech Stack\<newline>- TS''\<rparr>]"
    by code_simp
  note r = merge_output_parses_back [of ?e ?n, THEN conjunct2, rule_format, OF h]
  have a: "parseSections (merge ?e ?n)
     = [\<lparr>header = js ''Title'', level = 1, content = js ''# Title\<newline>> banner''\<rparr>,
        \<lparr>header = js ''About This Project'', level = 2,
           content = js ''## About This Project\<newline>Hello''\<rparr>,
        \<lparr>header = js ''Tech Stack'', level = 2, content = js ''## Tech Stack\<newline>- TS''\<rparr>]"
    using r [THEN conjunct1] v by (rule trans)
  from a r [THEN conjunct2] show ?thesis by (rule conjI)
qed

text \<open>
  C7 as stated fails: a body line \<open># A\<close> followed by a carriage return is no heading
  (the pattern's \<open>(.+)$\<close> stops before the CR), but right-trimming the content removes
  the CR, so the merged document parses into two sections where \<open>merge\<close> selected one,
  and joining them again gives another document.
\<close>

theorem carriage_return_counterexample:
  "merge_sections [] (js ''## X\<newline># A'' @ [0x0D])
     = [\<lparr>header = js ''X'', level = 2, content = js ''## X\<newline># A''\<rparr>]
   \<and> merge [] (js ''## X\<newline># A'' @ [0x0D]) = js ''## X\<newline># A\<newline>''
   \<and> parseSections (merge [] (js ''## X\<newline># A'' @ [0x0D]))
     = [\<lparr>header = js ''X'', level = 2, content = js ''## X''\<rparr>,
        \<lparr>header = js ''A'', level = 1, content = js ''# A''\<rparr>]
   \<and> join (js ''\<newline>\<newline>'') (map content
        (parseSections (merge [] (js ''## X\<newline># A'' @ [0x0D])))) @ js ''\<newline>''
     = js ''## X\<newline>\<newline># A\<newline>''"
  by code_simp

text \<open>
  C3, as amended. The headers of the sections that \<open>merge\<close> selects are the headers of
  the sections of the new document, in the same order, whatever the existing document
  is; a section of the new document whose header is not in the preservation policy is
  selected as it is. When neither document has a CR, LS or PS character and no section
  of the new document has an empty header, the headers of the parsed result of
  \<open>merge\<close> are the headers of the parsed new document.
\<close>

theorem template_governs_order:
  "map header (merge_sections e n) = map header (parseSections n)
   \<and> (\<forall>i. i < length (parseSections n) \<and> header (parseSections n ! i) \<notin> set PRESERVED_SECTIONS \<longrightarrow>
        merge_sections e n ! i = parseSections n ! i)
   \<and> (no_bare_terminator e \<and> no_bare_terminator n
        \<and> list_all (\<lambda>s. header s \<noteq> []) (parseSections n) \<longrightarrow>
      map header (parseSections (merge e n)) = map header (parseSections n))"
proof (intro conjI impI allI)
  show "map header (merge_sections e n) = map header (parseSections n)"
    by (rule merge_sections_headers)
  show "merge_sections e n ! i = parseSections n ! i"
    if "i < length (parseSections n) \<and> header (parseSections n ! i) \<notin> set PRESERVED_SECTIONS" for i
    using that by (simp add: merge_sections_eq select_section_def)
  assume "no_bare_terminator e \<and> no_bare_terminator n
        \<and> list_all (\<lambda>s. header s \<noteq> []) (parseSections n)"
  then show "map header (parseSections (merge e n)) = map header (parseSections n)"
    by (simp add: parse_merge merge_sections_headers)
qed

theorem template_governs_order_witness:
  "merge_sections (js ''## Tech Stack\<newline>old\<newline>## Pending TODOs\<newline>- [ ] mine'')
       (js ''## Pending TODOs\<newline>\<newline>## Tech Stack\<newline>new'') ! 1
     = \<lparr>header = js ''Tech Stack'', level = 2, content = js ''## Tech Stack\<newline>new''\<rparr>
   \<and> map header (parseSections
        (merge (js ''## Tech Stack\<newline>old\<newline>## Pending TODOs\<newline>- [ ] mine'')
          (js ''## Pending TODOs\<newline>\<newline>## Tech Stack\<newline>new'')))
     = [js ''Pending TODOs'', js ''Tech Stack'']"
proof -
  let ?e = "js ''## Tech Stack\<newline>old\<newline>## Pending TODOs\<newline>- [ ] mine''"
  let ?n = "js ''## Pending TODOs\<newline>\<newline>## Tech Stack\<newline>new''"
  have pn: "parseSections ?n
     = [\<lparr>header = js ''Pending TODOs'', level = 2, content = js ''## Pending TODOs''\<rparr>,
        \<lparr>header = js ''Tech Stack'', level = 2, content = js ''## Tech Stack\<newline>new''\<rparr>]"
    by code_simp
  have h1: "1 < length (parseSections ?n) \<and> header (parseSections ?n ! 1) \<notin> set PRESERVED_SECTIONS"
    unfolding pn by code_simp
  have h2: "no_bare_terminator ?e \<and> no_bare_terminator ?n
      \<and> list_all (\<lambda>s. header s \<noteq> []) (parseSections ?n)"
    unfolding pn by code_simp
  note t = template_governs_order [of ?e ?n]
  from t [THEN conjunct2, THEN conjunct1, rule_format, OF h1]
    t [THEN conjunct2, THEN conjunct2, rule_format, OF h2]
  show ?thesis unfolding pn by (simp add: js_def)
qed

text \<open>
  C3 as stated fails: the heading \<open>#\<close> followed by two spaces has an empty header
  (\<open>\s+\<close> gives one space back to \<open>(.+)\<close>), its content is right-trimmed to \<open>#\<close>, and
  in the merged document that line is no heading.
\<close>

theorem blank_heading_counterexample:
  "map header (parseSections (js ''#  \<newline># A'')) = [[], js ''A'']
   \<and> map header (parseSections (merge [] (js ''#  \<newline># A''))) = [js ''A'']"
  by code_simp

section \<open>Claims about parseSections\<close>

text \<open>
  C9, as amended. When no line of the input is a heading of the parser (the pattern of
  line 42, with the separator class \<open>\s\<close>), \<open>parseSections\<close> returns no section,
  \<open>extractPreservedData\<close> returns the empty defaults, \<open>merge\<close> with this input as the
  new document returns a single line feed, and \<open>merge\<close> with this input as the existing
  document returns the sections of the new document, joined. The lines before the
  first heading are discarded: the input parses as the input from its first heading on.
  No operation fails: with every read of a property of a possibly undefined value
  written as a possible TypeError, each of the four operations returns the result of
  the operation, for every input; and \<open>updateTimestamp\<close> returns an input without banner
  as it is.
\<close>

theorem no_heading_no_sections:
  "(list_all (\<lambda>l. \<not> heading l) (split_nl md) \<longrightarrow>
      parseSections md = []
      \<and> extractPreservedData md = \<lparr>description = [], architectureRules = [], todos = []\<rparr>
      \<and> merge e md = js ''\<newline>''
      \<and> merge md n = join_sections (parseSections n))
   \<and> (split_nl md = pre @ rest \<and> rest \<noteq> [] \<and> list_all (\<lambda>l. \<not> heading l) pre \<longrightarrow>
        parseSections md = parseSections (join [0x0A] rest))
   \<and> parseSections_checked md = Inr (parseSections md)
   \<and> extractPreservedData_checked md = Inr (extractPreservedData md)
   \<and> merge_checked e n = Inr (merge e n)
   \<and> updateTimestamp_checked md date = Inr (updateTimestamp md date)
   \<and> (\<not> banner_matches md \<longrightarrow> updateTimestamp md date = md)"
proof (intro conjI impI)
  assume "list_all (\<lambda>l. \<not> heading l) (split_nl md)"
  then show p: "parseSections md = []"
    by (simp add: parseSections_blocks blocks_no_heading list_all_iff named_sections_def)
  then show "extractPreservedData md = \<lparr>description = [], architectureRules = [], todos = []\<rparr>"
    by (simp add: extractPreservedData_def extract_description_def extract_rules_def
        extract_todos_def)
  from p show "merge e md = js ''\<newline>''"
    by (simp add: merge_def merge_sections_eq join_sections_def)
  have "map (select_section Map.empty) (parseSections n) = parseSections n"
    by (rule map_idI) (simp add: select_section_def)
  with p show "merge md n = join_sections (parseSections n)"
    by (simp add: merge_def merge_sections_eq sections_map_def)
next
  assume a: "split_nl md = pre @ rest \<and> rest \<noteq> [] \<and> list_all (\<lambda>l. \<not> heading l) pre"
  then have "\<forall>l\<in>set rest. 0x0A \<notin> set l"
    using split_nl_lines_no_nl [of _ md] by simp
  with a have "split_nl (join [0x0A] rest) = rest" by (simp add: split_nl_join)
  with a show "parseSections md = parseSections (join [0x0A] rest)"
    by (simp add: parseSections_blocks blocks_preamble list_all_iff)
next
  show "parseSections_checked md = Inr (parseSections md)"
    by (rule parseSections_checked_eq)
  show "extractPreservedData_checked md = Inr (extractPreservedData md)"
    by (rule extractPreservedData_checked_eq)
  show "merge_checked e n = Inr (merge e n)" by (rule merge_checked_eq)
  show "updateTimestamp_checked md date = Inr (updateTimestamp md date)"
    by (simp add: updateTimestamp_checked_def)
  show "updateTimestamp md date = md" if "\<not> banner_matches md"
    using that by (rule updateTimestamp_no_banner)
qed

theorem no_heading_no_sections_witness:
  "parseSections (js ''intro\<newline>#7'') = []
   \<and> extractPreservedData (js ''intro\<newline>#7'')
       = \<lparr>description = [], architectureRules = [], todos = []\<rparr>
   \<and> merge (js ''# Old\<newline>text'') (js ''intro\<newline>#7'') = js ''\<newline>''
   \<and> merge (js ''intro\<newline>#7'') (js ''# A\<newline>body'') = js ''# A\<newline>body\<newline>''
   \<and> parseSections (js ''intro\<newline>\<newline># A\<newline>body'') = parseSections (js ''# A\<newline>body'')
   \<and> parseSections (js ''# A\<newline>body'') = [\<lparr>header = js ''A'', level = 1, content = js ''# A\<newline>body''\<rparr>]
   \<and> parseSections_checked (js ''# A\<newline>body'')
       = Inr [\<lparr>header = js ''A'', level = 1, content = js ''# A\<newline>body''\<rparr>]
   \<and> updateTimestamp (js ''intro\<newline>#7'') (js ''2026-01-01'') = js ''intro\<newline>#7''"
proof -
  have h1: "list_all (\<lambda>l. \<not> heading l) (split_nl (js ''intro\<newline>#7''))" by code_simp
  have h2: "split_nl (js ''intro\<newline>\<newline># A\<newline>body'') = [js ''intro'', []] @ [js ''# A'', js ''body'']
    \<and> [js ''# A'', js ''body''] \<noteq> [] \<and> list_all (\<lambda>l. \<not> heading l) [js ''intro'', []]"
    by code_simp
  have "find_banner [] (js ''intro\<newline>#7'') = None" by code_simp
  then have h3: "\<not> banner_matches (js ''intro\<newline>#7'')"
    using find_banner_None by (simp add: banner_matches_iff)
  have j: "join [0x0A] [js ''# A'', js ''body''] = js ''# A\<newline>body''" by code_simp
  have v: "parseSections (js ''# A\<newline>body'') = [\<lparr>header = js ''A'', level = 1, content = js ''# A\<newline>body''\<rparr>]"
    by code_simp
  have k: "join_sections [\<lparr>header = js ''A'', level = 1, content = js ''# A\<newline>body''\<rparr>]
      = js ''# A\<newline>body\<newline>''"
    by (simp add: join_sections_def js_def)
  note t = no_heading_no_sections [of "js ''intro\<newline>#7''" "js ''# Old\<newline>text''" "js ''# A\<newline>body''" _ _ "js ''2026-01-01''"]
  from t [THEN conjunct1, rule_format, OF h1]
    no_heading_no_sections [of "js ''intro\<newline>\<newline># A\<newline>body''" _ _ "[js ''intro'', []]" "[js ''# A'', js ''body'']",
      THEN conjunct2, THEN conjunct1, rule_format, OF h2]
    no_heading_no_sections [of "js ''# A\<newline>body''", THEN conjunct2, THEN conjunct2, THEN conjunct1]
    t [THEN conjunct2, THEN conjunct2, THEN conjunct2, THEN conjunct2, THEN conjunct2,
       THEN conjunct2, rule_format, OF h3]
    j v k
  show ?thesis by simp
qed

text \<open>
  C9 as stated fails for the heading grammar as the specification writes it, with the
  separator class \<open>[ \t]\<close>: in the input of two marks, a form feed and \<open>Notes\<close> no line
  matches that grammar, and \<open>parseSections\<close> returns a section.
\<close>

theorem written_grammar_counterexample:
  "list_all (\<lambda>l. \<not> heading_grammar is_blank l) (split_nl ([0x23, 0x23, 0x0C] @ js ''Notes''))
   \<and> parseSections ([0x23, 0x23, 0x0C] @ js ''Notes'')
     = [\<lparr>header = js ''Notes'', level = 2, content = [0x23, 0x23, 0x0C] @ js ''Notes''\<rparr>]"
  by code_simp

text \<open>
  C5, as amended. A line opens a new section exactly when it is in the language of
  \<open>^#{1,6}\s+.+$\<close>, where \<open>\s\<close> is every white space and line terminator character
  (not only space and tab) and \<open>.\<close> is every character but a line terminator. The
  header of the section is the trimmed text after the run of marks and its level is the
  length of the run. A line with 7 or more leading marks, or with no white space after
  the run, opens no section.
\<close>

theorem heading_lines_open_sections:
  "parseSections md = named_sections (map block_section (blocks heading (split_nl md)))
   \<and> parse_line st line =
       (if heading line
        then \<lparr>sections = (if inSection st \<or> currentSectionHeader st \<noteq> []
                            then sections st @ [current_section st] else sections st),
               currentSectionHeader = line_header line, currentSectionLevel = line_level line,
               currentContent = [line], inSection = True\<rparr>
        else if inSection st then st\<lparr>currentContent := currentContent st @ [line]\<rparr> else st)
   \<and> (7 \<le> line_level line \<longrightarrow> \<not> heading line)
   \<and> (\<not> list_ex is_space (take 1 (dropWhile is_hash line)) \<longrightarrow> \<not> heading line)"
proof (intro conjI impI)
  show "parseSections md = named_sections (map block_section (blocks heading (split_nl md)))"
    by (rule parseSections_blocks)
  show "parse_line st line =
       (if heading line
        then \<lparr>sections = (if inSection st \<or> currentSectionHeader st \<noteq> []
                            then sections st @ [current_section st] else sections st),
               currentSectionHeader = line_header line, currentSectionLevel = line_level line,
               currentContent = [line], inSection = True\<rparr>
        else if inSection st then st\<lparr>currentContent := currentContent st @ [line]\<rparr> else st)"
    by (simp add: parse_line_heading parse_line_other)
  show "\<not> heading line" if "7 \<le> line_level line"
    using that heading_level_bounds(2) [of line] by auto
  show "\<not> heading line" if "\<not> list_ex is_space (take 1 (dropWhile is_hash line))"
    using that heading_level_bounds(3) [of line] by auto
qed

theorem heading_lines_open_sections_witness:
  "parseSections ([0x23, 0xA0] @ js ''Title  \<newline>text\<newline>####### seven\<newline>#none'')
     = [\<lparr>header = js ''Title'', level = 1,
         content = [0x23, 0xA0] @ js ''Title  \<newline>text\<newline>####### seven\<newline>#none''\<rparr>]
   \<and> \<not> heading (js ''####### seven'') \<and> \<not> heading (js ''#none'')"
proof -
  have h1: "7 \<le> line_level (js ''####### seven'')" by code_simp
  have h2: "\<not> list_ex is_space (take 1 (dropWhile is_hash (js ''#none'')))" by code_simp
  have v: "named_sections (map block_section (blocks heading
      (split_nl ([0x23, 0xA0] @ js ''Title  \<newline>text\<newline>####### seven\<newline>#none''))))
     = [\<lparr>header = js ''Title'', level = 1,
         content = [0x23, 0xA0] @ js ''Title  \<newline>text\<newline>####### seven\<newline>#none''\<rparr>]"
    by code_simp
  from heading_lines_open_sections [of "[0x23, 0xA0] @ js ''Title  \<newline>text\<newline>####### seven\<newline>#none''" parse_init "js ''####### seven''",
      THEN conjunct1]
    heading_lines_open_sections [of "[]" parse_init "js ''####### seven''",
      THEN conjunct2, THEN conjunct2, THEN conjunct1, rule_format, OF h1]
    heading_lines_open_sections [of "[]" parse_init "js ''#none''",
      THEN conjunct2, THEN conjunct2, THEN conjunct2, rule_format, OF h2] v
  show ?thesis by simp
qed

text \<open>
  C5 as stated fails: a no-break space (U+00A0) after the mark is not in \<open>[ \t]\<close>, and
  the line opens a section all the same.
\<close>

theorem separator_class_counterexample:
  "\<not> heading_grammar is_blank [0x23, 0xA0, 0x41]
   \<and> parseSections [0x23, 0xA0, 0x41]
       = [\<lparr>header = [0x41], level = 1, content = [0x23, 0xA0, 0x41]\<rparr>]
   \<and> named_sections (map block_section (blocks (heading_grammar is_blank)
        (split_nl [0x23, 0xA0, 0x41]))) = []"
  by code_simp

section \<open>Claims about extractPreservedData\<close>

text \<open>
  C4, as amended. \<open>extractPreservedData\<close> resolves each of the three headers to the
  first section of the parsed document with that header (\<open>sections.find\<close>), and computes
  the field from that section; a header with no section gives the empty default.
\<close>

theorem extract_uses_first_section:
  "description (extractPreservedData md) =
     (case filter (\<lambda>s. header s = js ''About This Project'') (parseSections md) of
        [] \<Rightarrow> [] | s # _ \<Rightarrow> extract_description (Some s))
   \<and> architectureRules (extractPreservedData md) =
     (case filter (\<lambda>s. header s = js ''Architecture Rules'') (parseSections md) of
        [] \<Rightarrow> [] | s # _ \<Rightarrow> extract_rules (Some s))
   \<and> todos (extractPreservedData md) =
     (case filter (\<lambda>s. header s = js ''Pending TODOs'') (parseSections md) of
        [] \<Rightarrow> [] | s # _ \<Rightarrow> extract_todos (Some s))"
  by (simp add: extractPreservedData_def Let_def find_filter extract_description_def
      extract_rules_def extract_todos_def split: list.splits)

text \<open>
  C4 as stated fails: with two sections \<open>Pending TODOs\<close>, the todos come from the first
  one, and the last one would give another list.
\<close>

theorem extract_last_match_counterexample:
  "todos (extractPreservedData
      (js ''## Pending TODOs\<newline>- [ ] A\<newline>## Pending TODOs\<newline>- [ ] B'')) = [js ''A'']
   \<and> extract_todos (Some (last (filter (\<lambda>s. header s = js ''Pending TODOs'')
        (parseSections (js ''## Pending TODOs\<newline>- [ ] A\<newline>## Pending TODOs\<newline>- [ ] B'')))))
      = [js ''B'']"
  by code_simp

text \<open>
  C6, as amended. The todos are the texts of the checkbox lines of the resolved
  \<open>Pending TODOs\<close> section, in the order of the lines: a line counts when its trimmed
  form is \<open>- [ ]\<close> or \<open>- [x]\<close> (lowercase) followed, after white space that may be
  missing, by a non-empty text without CR, LS or PS. A line with \<open>- [X]\<close> gives no todo,
  and every todo is non-empty and trimmed.
\<close>

theorem todos_are_checkbox_lines:
  "todos (extractPreservedData md) =
     (case find (\<lambda>s. header s = js ''Pending TODOs'') (parseSections md) of
        None \<Rightarrow> []
      | Some s \<Rightarrow> List.map_filter checkbox_text (split_nl (content s)))
   \<and> (take 5 (trim l) = js ''- [X]'' \<longrightarrow> checkbox_text l = None)
   \<and> (checkbox_text l = Some t \<longrightarrow> t \<noteq> [] \<and> trim t = t)"
proof (intro conjI impI)
  show "todos (extractPreservedData md) =
     (case find (\<lambda>s. header s = js ''Pending TODOs'') (parseSections md) of
        None \<Rightarrow> []
      | Some s \<Rightarrow> List.map_filter checkbox_text (split_nl (content s)))"
    by (simp add: extractPreservedData_def Let_def extract_todos_def todos_map_filter
        split: option.splits)
  show "checkbox_text l = None" if "take 5 (trim l) = js ''- [X]''"
    using that by (simp add: checkbox_text_def Let_def js_def)
  show "t \<noteq> []" if "checkbox_text l = Some t" using that by (rule checkbox_text_nonempty)
  show "trim t = t" if "checkbox_text l = Some t" using that by (rule checkbox_text_trimmed)
qed

theorem todos_are_checkbox_lines_witness:
  "todos (extractPreservedData
      (js ''## Pending TODOs\<newline>- [ ] A\<newline>  - [x] B  \<newline>- not a todo\<newline>- [X] C\<newline>- [ ]\<newline>''))
     = [js ''A'', js ''B'']
   \<and> checkbox_text (js ''- [X] C'') = None
   \<and> trim (js ''B'') = js ''B''"
proof -
  let ?md = "js ''## Pending TODOs\<newline>- [ ] A\<newline>  - [x] B  \<newline>- not a todo\<newline>- [X] C\<newline>- [ ]\<newline>''"
  have p: "parseSections ?md = [\<lparr>header = js ''Pending TODOs'', level = 2,
      content = js ''## Pending TODOs\<newline>- [ ] A\<newline>  - [x] B  \<newline>- not a todo\<newline>- [X] C\<newline>- [ ]''\<rparr>]"
    by code_simp
  have v: "List.map_filter checkbox_text
      (split_nl (js ''## Pending TODOs\<newline>- [ ] A\<newline>  - [x] B  \<newline>- not a todo\<newline>- [X] C\<newline>- [ ]''))
     = [js ''A'', js ''B'']"
    by code_simp
  have h1: "take 5 (trim (js ''- [X] C'')) = js ''- [X]''" by code_simp
  have h2: "checkbox_text (js ''  - [x] B  '') = Some (js ''B'')" by code_simp
  note t = todos_are_checkbox_lines [of ?md "js ''- [X] C''"]
  have "todos (extractPreservedData ?md) = [js ''A'', js ''B'']"
    using t [THEN conjunct1] unfolding p by (simp add: v)
  moreover have "checkbox_text (js ''- [X] C'') = None"
    using t [THEN conjunct2, THEN conjunct1, rule_format, OF h1] .
  moreover have "trim (js ''B'') = js ''B''"
    using todos_are_checkbox_lines [of ?md "js ''  - [x] B  ''" "js ''B''",
        THEN conjunct2, THEN conjunct2, rule_format, OF h2] by blast
  ultimately show ?thesis by blast
qed

text \<open>
  C6 as stated fails: the line \<open>- [x]done\<close> has no space after the box and gives the todo
  \<open>done\<close>, and the line \<open>- [ ] a\<close>, CR, \<open>b\<close> is a box, a space and a text, and gives no
  todo (\<open>(.+)$\<close> does not pass the carriage return).
\<close>

theorem written_checkbox_counterexample:
  "parseSections (js ''## Pending TODOs\<newline>- [x]done\<newline>- [ ] a'' @ [0x0D] @ js ''b'')
     = [\<lparr>header = js ''Pending TODOs'', level = 2,
         content = js ''## Pending TODOs\<newline>- [x]done\<newline>- [ ] a'' @ [0x0D] @ js ''b''\<rparr>]
   \<and> todos (extractPreservedData
        (js ''## Pending TODOs\<newline>- [x]done\<newline>- [ ] a'' @ [0x0D] @ js ''b''))
     = [js ''done'']
   \<and> List.map_filter written_checkbox_text
        (split_nl (js ''## Pending TODOs\<newline>- [x]done\<newline>- [ ] a'' @ [0x0D] @ js ''b''))
     = [js ''a'' @ [0x0D] @ js ''b'']"
  by code_simp

section \<open>Claims about updateTimestamp\<close>

text \<open>
  C8, as amended. When no substring of the input matches the banner pattern,
  \<open>updateTimestamp\<close> returns the input. When one does, there is a first match, and for a
  date string without the character \<open>$\<close> the result is the input with the date span of
  the first match replaced by the date string: the text up to the span and the text
  from the end of the span on (with every other \<open>Re-run\<close>) are unchanged.
\<close>

theorem updateTimestamp_first_banner:
  "(\<not> banner_matches s \<longrightarrow> updateTimestamp s date = s)
   \<and> (banner_matches s \<longrightarrow> (\<exists>i k. first_banner s i k))
   \<and> (first_banner s i k \<and> 0x24 \<notin> set date \<longrightarrow>
        updateTimestamp s date =
          take (i + length banner_prefix) s @ date @ drop (i + length banner_prefix + k) s)"
proof (intro conjI impI)
  assume "\<not> banner_matches s"
  then have nb: "\<And>i k. \<not> banner_at s i k" by (simp add: banner_matches_iff)
  have "find_banner [] s = None"
  proof (cases "find_banner [] s")
    case None
    then show ?thesis .
  next
    case (Some bda)
    then obtain b d a where "find_banner [] s = Some (b, d, a)" by (cases bda) auto
    from find_banner_Some [OF this] nb show ?thesis by blast
  qed
  then show "updateTimestamp s date = s" by (simp add: updateTimestamp_def)
next
  assume "banner_matches s"
  then obtain i0 k0 where "banner_at s i0 k0" by (auto simp: banner_matches_iff)
  then have "find_banner [] s \<noteq> None" using find_banner_None [of "[]" s i0 k0] by blast
  then obtain b d a where "find_banner [] s = Some (b, d, a)" by auto
  from find_banner_Some [OF this] obtain i1 k1 where "banner_at s i1 k1
      \<and> (\<forall>i' k'. i' < i1 \<longrightarrow> \<not> banner_at s i' k')
      \<and> (\<forall>k'. 1 \<le> k' \<and> k' < k1 \<longrightarrow> \<not> banner_at s i1 k')"
    by blast
  then have "first_banner s i1 k1" by (simp add: first_banner_iff)
  then show "\<exists>i k. first_banner s i k" by blast
next
  assume a: "first_banner s i k \<and> 0x24 \<notin> set date"
  let ?P = "length banner_prefix"
  from a have b: "banner_at s i k" by (simp add: first_banner_iff)
  then have p: "startsWith (drop i s) banner_prefix"
    and sfx: "startsWith (drop (i + ?P + k) s) banner_suffix"
    by (simp_all add: banner_at_def)
  have "take (i + ?P) s = take i s @ take ?P (drop i s)" by (rule take_add)
  with p have 1: "take (i + ?P) s = take i s @ banner_prefix" by (simp add: startsWith_def)
  have t: "take (length banner_suffix) (drop (i + ?P + k) s) = banner_suffix"
    using sfx by (simp add: startsWith_def)
  have "drop (i + ?P + k + length banner_suffix) s
      = drop (length banner_suffix) (drop (i + ?P + k) s)"
    by (simp add: add.commute)
  then have "banner_suffix @ drop (i + ?P + k + length banner_suffix) s
      = take (length banner_suffix) (drop (i + ?P + k) s)
        @ drop (length banner_suffix) (drop (i + ?P + k) s)"
    by (simp only: t)
  then have 2: "drop (i + ?P + k) s = banner_suffix @ drop (i + ?P + k + length banner_suffix) s"
    by (simp only: append_take_drop_id)
  from a have "0x24 \<notin> set (banner_prefix @ date @ banner_suffix)"
    by (simp add: no_dollar_banner)
  then have gs: "get_substitution m b' a' (banner_prefix @ date @ banner_suffix)
     = banner_prefix @ date @ banner_suffix" for m b' a'
    by (rule get_substitution_plain)
  from a have fb: "find_banner [] s = Some (take i s, take k (drop (i + ?P) s),
     drop (i + ?P + k + length banner_suffix) s)"
    using find_banner_first [of s i k] by blast
  have "updateTimestamp s date =
      take i s @ (banner_prefix @ date @ banner_suffix) @ drop (i + ?P + k + length banner_suffix) s"
    unfolding updateTimestamp_def fb by (simp only: option.case prod.case gs)
  also have "\<dots> = (take i s @ banner_prefix) @ date
      @ (banner_suffix @ drop (i + ?P + k + length banner_suffix) s)"
    by simp
  also have "\<dots> = take (i + ?P) s @ date @ drop (i + ?P + k) s"
    by (simp only: 1 [symmetric] 2 [symmetric])
  finally show "updateTimestamp s date = take (i + ?P) s @ date @ drop (i + ?P + k) s" .
qed


theorem updateTimestamp_first_banner_witness:
  "updateTimestamp (js ''no banner here. Re-run'') (js ''2026-01-01'') = js ''no banner here. Re-run''
   \<and> (\<exists>i k. first_banner
        (js ''# T\<newline>> Auto-generated by flight-dispatcher on 2020-02-02. Re-run `x`. Re-run'') i k)
   \<and> updateTimestamp
        (js ''# T\<newline>> Auto-generated by flight-dispatcher on 2020-02-02. Re-run `x`. Re-run'')
        (js ''2026-01-01'')
      = js ''# T\<newline>> Auto-generated by flight-dispatcher on 2026-01-01. Re-run `x`. Re-run''"
proof -
  let ?s = "js ''# T\<newline>> Auto-generated by flight-dispatcher on 2020-02-02. Re-run `x`. Re-run''"
  have "find_banner [] (js ''no banner here. Re-run'') = None" by code_simp
  then have h1: "\<not> banner_matches (js ''no banner here. Re-run'')"
    using find_banner_None by (simp add: banner_matches_iff)
  have f: "find_banner [] ?s = Some (js ''# T\<newline>'', js ''2020-02-02'', js '' `x`. Re-run'')"
    by code_simp
  have len: "length (js ''# T\<newline>'') = 4" "length (js ''2020-02-02'') = 10"
    by (simp_all add: js_def)
  have fb: "first_banner ?s 4 10"
    using find_banner_first_banner [OF f] unfolding len .
  then have h2: "banner_matches ?s" by (auto simp: first_banner_iff banner_matches_iff)
  have "0x24 \<notin> set (js ''2026-01-01'')" by (simp add: js_def)
  with fb have h3: "first_banner ?s 4 10 \<and> 0x24 \<notin> set (js ''2026-01-01'')" by blast
  have v: "take (4 + length banner_prefix) ?s @ js ''2026-01-01''
      @ drop (4 + length banner_prefix + 10) ?s
    = js ''# T\<newline>> Auto-generated by flight-dispatcher on 2026-01-01. Re-run `x`. Re-run''"
    by (simp add: length_banner_prefix js_def)
  note t = updateTimestamp_first_banner
  from t [of "js ''no banner here. Re-run''" "js ''2026-01-01''", THEN conjunct1, rule_format, OF h1]
    t [of ?s, THEN conjunct2, THEN conjunct1, rule_format, OF h2]
    t [of ?s _ 4 10, THEN conjunct2, THEN conjunct2, rule_format, OF h3] v
  show ?thesis by simp
qed

text \<open>
  C8 as stated fails for a date string with \<open>$\<close>: the replacement of
  \<open>String.prototype.replace\<close> is a template, so \<open>$$\<close> is written as one \<open>$\<close> and \<open>$&\<close> as
  the matched banner.
\<close>

theorem updateTimestamp_dollar_counterexample:
  "updateTimestamp (js ''> Auto-generated by flight-dispatcher on 2020-02-02. Re-run'') (js ''$$'')
     = js ''> Auto-generated by flight-dispatcher on $. Re-run''
   \<and> updateTimestamp (js ''> Auto-generated by flight-dispatcher on 2020-02-02. Re-run'') (js ''$&'')
     = js ''> Auto-generated by flight-dispatcher on > Auto-generated by flight-dispatcher on 2020-02-02. Re-run. Re-run''"
  by code_simp

end
